theory Spec2Isabelle
  imports Main "HOL-Library.Multiset"
begin

section \<open>Python values used by \<open>ocr_extract.py\<close>\<close>

subsection \<open>Strings\<close>

text \<open>
  A Python \<open>str\<close> is a sequence of Unicode code points, so it is modelled as a list of
  natural numbers (the code points). \<open>lit\<close> turns an ASCII literal into such a string.
\<close>

type_synonym pystr = "nat list"

definition lit :: "string \<Rightarrow> pystr" where
  "lit s = map of_char s"

text \<open>
  \<open>str.isspace\<close> for one code point: the code points CPython treats as whitespace, which
  are the ones \<open>str.strip()\<close> removes.
\<close>

definition py_isspace :: "nat \<Rightarrow> bool" where
  "py_isspace c \<longleftrightarrow>
     (9 \<le> c \<and> c \<le> 13) \<or> (28 \<le> c \<and> c \<le> 32) \<or> c = 133 \<or> c = 160 \<or> c = 5760
     \<or> (8192 \<le> c \<and> c \<le> 8202) \<or> c = 8232 \<or> c = 8233 \<or> c = 8239 \<or> c = 8287
     \<or> c = 12288"

text \<open>\<open>s.strip()\<close>: drop the leading and the trailing whitespace.\<close>

definition strip :: "pystr \<Rightarrow> pystr" where
  "strip s = rev (dropWhile py_isspace (rev (dropWhile py_isspace s)))"

text \<open>A string without leading and without trailing whitespace.\<close>

definition trimmed :: "pystr \<Rightarrow> bool" where
  "trimmed s \<longleftrightarrow> s = [] \<or> (\<not> py_isspace (hd s) \<and> \<not> py_isspace (last s))"

text \<open>\<open>sep.join(xs)\<close>.\<close>

fun join :: "pystr \<Rightarrow> pystr list \<Rightarrow> pystr" where
  "join sep [] = []"
| "join sep [x] = x"
| "join sep (x # y # ys) = x @ sep @ join sep (y # ys)"

text \<open>\<open>needle in hay\<close> for strings: \<open>needle\<close> occurs as a contiguous substring.\<close>

fun py_in :: "pystr \<Rightarrow> pystr \<Rightarrow> bool" where
  "py_in needle [] = (needle = [])"
| "py_in needle (c # cs) = (take (length needle) (c # cs) = needle \<or> py_in needle cs)"

text \<open>\<open>str(n)\<close> for an integer: decimal digits, with a minus sign for negative numbers.\<close>

fun str_nat :: "nat \<Rightarrow> pystr" where
  "str_nat n = (if n < 10 then [48 + n] else str_nat (n div 10) @ [48 + n mod 10])"

declare str_nat.simps [simp del]

definition str_int :: "int \<Rightarrow> pystr" where
  "str_int i = (if i < 0 then 45 # str_nat (nat (- i)) else str_nat (nat i))"

text \<open>The number a string of decimal digits denotes.\<close>

definition decimal_value :: "pystr \<Rightarrow> nat" where
  "decimal_value ds = foldl (\<lambda>acc d. 10 * acc + (d - 48)) 0 ds"

subsection \<open>Exceptions\<close>

text \<open>
  The \<open>except\<close> clauses of the source distinguish \<open>IndexError\<close>, \<open>AttributeError\<close> and
  every other \<open>Exception\<close>; \<open>ValueError\<close> is what \<open>build_model\<close> and \<open>range\<close> raise.
  \<open>message\<close> is \<open>str(e)\<close>.
\<close>

datatype exn_kind = IndexError | AttributeError | ValueError | OtherException

datatype exn = Exn (kind: exn_kind) (message: pystr)

subsection \<open>\<open>range\<close>\<close>

function range_up :: "int \<Rightarrow> int \<Rightarrow> int \<Rightarrow> int list" where
  "range_up i stop step =
     (if 0 < step \<and> i < stop then i # range_up (i + step) stop step else [])"
  by pat_completeness auto
termination
  by (relation "measure (\<lambda>(i, stop, step). nat (stop - i))") auto

function range_down :: "int \<Rightarrow> int \<Rightarrow> int \<Rightarrow> int list" where
  "range_down i stop step =
     (if step < 0 \<and> stop < i then i # range_down (i + step) stop step else [])"
  by pat_completeness auto
termination
  by (relation "measure (\<lambda>(i, stop, step). nat (i - stop))") auto

declare range_up.simps [simp del] range_down.simps [simp del]

text \<open>\<open>range(start, stop, step)\<close> as the list it iterates over; a zero step raises.\<close>

definition py_range :: "int \<Rightarrow> int \<Rightarrow> int \<Rightarrow> exn + int list" where
  "py_range start stop step =
     (if step = 0 then Inl (Exn ValueError (lit ''range() arg 3 must not be zero''))
      else if 0 < step then Inr (range_up start stop step)
      else Inr (range_down start stop step))"

section \<open>The batch windows of \<open>run_pipeline\<close>\<close>

text \<open>
  \<open>for batch_start in range(1, total_pages + 1, batch_size):
       batch_end = min(batch_start + batch_size - 1, total_pages)\<close>
\<close>

definition batch_end_of :: "int \<Rightarrow> int \<Rightarrow> int \<Rightarrow> int" where
  "batch_end_of total_pages batch_size batch_start =
     min (batch_start + batch_size - 1) total_pages"

definition batch_windows :: "int \<Rightarrow> int \<Rightarrow> exn + (int \<times> int) list" where
  "batch_windows total_pages batch_size =
     (case py_range 1 (total_pages + 1) batch_size of
        Inl e \<Rightarrow> Inl e
      | Inr starts \<Rightarrow>
          Inr (map (\<lambda>batch_start. (batch_start, batch_end_of total_pages batch_size batch_start))
                 starts))"

text \<open>The windows of the batch starts from \<open>i\<close> on.\<close>

definition windows_from :: "int \<Rightarrow> int \<Rightarrow> int \<Rightarrow> (int \<times> int) list" where
  "windows_from tp bs i =
     map (\<lambda>s. (s, batch_end_of tp bs s)) (range_up i (tp + 1) bs)"

section \<open>Page labels (\<open>_ocr_task\<close>)\<close>

text \<open>
  \<open>printed_page = idx - start_page + 1
   page_label = f"Page {printed_page}" if printed_page >= 1 else f"[Front Matter p.{idx}]"\<close>
\<close>

definition label_of :: "int \<Rightarrow> int \<Rightarrow> pystr" where
  "label_of start_page idx =
     (let printed_page = idx - start_page + 1
      in if printed_page \<ge> 1 then lit ''Page '' @ str_int printed_page
         else lit ''[Front Matter p.'' @ str_int idx @ lit '']'')"

section \<open>Page images and the page splitter\<close>

text \<open>
  A page image is a rectangular region \<open>(left, upper, right, lower)\<close> of the raster of
  one rendered page (\<open>source\<close> identifies the raster). \<open>size\<close> and \<open>crop\<close> are the two
  operations of the imaging library the source uses: \<open>page.size\<close> is \<open>(width, height)\<close>,
  \<open>page.crop(box)\<close> is the sub-region \<open>box\<close>, given in the coordinates of \<open>page\<close>.
\<close>

datatype image = Image (source: nat) (box: "int \<times> int \<times> int \<times> int")

fun size_of :: "image \<Rightarrow> int \<times> int" where
  "size_of (Image s (l, u, r, d)) = (r - l, d - u)"

fun crop :: "image \<Rightarrow> int \<times> int \<times> int \<times> int \<Rightarrow> image" where
  "crop (Image s (l, u, r, d)) (a, b, c, e) = Image s (l + a, u + b, l + c, u + e)"

text \<open>
  \<open>w * 1.4\<close> is a product of double-precision floats. \<open>1.4\<close> is the double
  \<open>6305039478318694 * 2^-52\<close>; the integer \<open>w\<close> is converted to a double, and the exact
  product is rounded to 53 significant bits, ties to even. \<open>round53\<close> is that rounding on
  integers (the unit is a fixed power of two, which rounding to significant bits does not
  depend on), so \<open>float_mul_1_4 w\<close> is the double \<open>w * 1.4\<close> in units of \<open>2^-52\<close>.
  Python compares an \<open>int\<close> with a \<open>float\<close> by their exact values. Exponent overflow does
  not occur for the sizes of an image.
\<close>

fun bit_length :: "nat \<Rightarrow> nat" where
  "bit_length n = (if n = 0 then 0 else Suc (bit_length (n div 2)))"

declare bit_length.simps [simp del]

definition round53 :: "int \<Rightarrow> int" where
  "round53 p =
     (let a = \<bar>p\<bar>;
          k = bit_length (nat a) - 53;
          q = a div 2 ^ k;
          r = a mod 2 ^ k;
          q' = (if 2 * r > 2 ^ k \<or> (2 * r = 2 ^ k \<and> odd q) then q + 1 else q)
      in sgn p * (q' * 2 ^ k))"

definition float_mul_1_4 :: "int \<Rightarrow> int" where
  "float_mul_1_4 w = round53 (round53 w * 6305039478318694)"

text \<open>\<open>h > w * 1.4\<close>\<close>

definition is_tall :: "int \<Rightarrow> int \<Rightarrow> bool" where
  "is_tall w h \<longleftrightarrow> h * 2 ^ 52 > float_mul_1_4 w"

text \<open>
  \<open>def split_vertical(page):
       w, h = page.size
       if h > w * 1.4:
           mid = h // 2
           return [page.crop((0, 0, w, mid)), page.crop((0, mid, w, h))]
       return [page]\<close>
\<close>

definition split_vertical :: "image \<Rightarrow> image list" where
  "split_vertical page =
     (case size_of page of (w, h) \<Rightarrow>
        if is_tall w h then
          (let mid = h div 2
           in [crop page (0, 0, w, mid), crop page (0, mid, w, h)])
        else [page])"

section \<open>The remote model and the retry loops\<close>

text \<open>
  What \<open>model.generate_content\<close> gives back: it raises, or it returns a response with its
  list of candidates (each candidate is the list of the \<open>text\<close> fields of its content
  parts, \<open>None\<close> when a part has no text) and with what reading \<open>r.text\<close> yields (a string,
  or an exception raised by the accessor).
\<close>

record response =
  candidates :: "pystr option list list"
  text_attr :: "exn + pystr"

datatype reply = Raise exn | Return response

text \<open>
  A model is the reply to its \<open>n\<close>-th invocation (counted from 0) on a request. The
  request is the part of the argument that varies: the chunk image for OCR, the raw text
  for correction (the few-shot prompt in front is fixed).
\<close>

type_synonym 'q model = "nat \<Rightarrow> 'q \<Rightarrow> reply"

text \<open>
  The effects of a retry loop: how many times \<open>generate_content\<close> has been invoked, and
  the arguments of \<open>time.sleep\<close> in the order of the calls. Console messages are not
  modelled.
\<close>

record world =
  calls :: nat
  sleeps :: "int list"

definition invoke :: "world \<Rightarrow> world" where
  "invoke w = w\<lparr>calls := calls w + 1\<rparr>"

definition sleep :: "int \<Rightarrow> world \<Rightarrow> world" where
  "sleep s w = w\<lparr>sleeps := sleeps w @ [s]\<rparr>"

text \<open>\<open>"DeadlineExceeded" in str(e) or "504" in str(e)\<close>\<close>

definition is_timeout :: "exn \<Rightarrow> bool" where
  "is_timeout e \<longleftrightarrow>
     py_in (lit ''DeadlineExceeded'') (message e) \<or> py_in (lit ''504'') (message e)"

text \<open>
  How one pass through the body of a retry loop ends: the loop is left with a result
  (\<open>break\<close> after \<open>out.append\<close>, or \<open>return\<close>), an exception leaves the function, or the
  body sleeps and the loop goes on to the next attempt.
\<close>

datatype outcome = Value pystr | Raised exn | Sleep_then_retry int

text \<open>\<open>(p.text or "")\<close>\<close>

definition text_or_empty :: "pystr option \<Rightarrow> pystr" where
  "text_or_empty p = (case p of None \<Rightarrow> [] | Some t \<Rightarrow> t)"

text \<open>
  The body of the retry loop of \<open>ocr_page\<close> for one attempt, given the reply of
  \<open>generate_content\<close>: the branches of the \<open>try\<close>, of \<open>except IndexError\<close> and of
  \<open>except Exception\<close>, in the order of the source.
\<close>

definition ocr_attempt :: "reply \<Rightarrow> int \<Rightarrow> int \<Rightarrow> outcome" where
  "ocr_attempt rep max_retries attempt =
     (case rep of
        Return r \<Rightarrow>
          (case candidates r of
             [] \<Rightarrow>
               if attempt < max_retries - 1 then Sleep_then_retry ((attempt + 1) * 10)
               else Value []
           | c # _ \<Rightarrow>
               Value (strip (concat (map text_or_empty c))))
      | Raise e \<Rightarrow>
          if kind e = IndexError then
            (if attempt < max_retries - 1 then Sleep_then_retry ((attempt + 1) * 10)
             else Value [])
          else if is_timeout e then
            (if attempt < max_retries - 1 then Sleep_then_retry ((attempt + 1) * 10)
             else Raised e)
          else Raised e)"

text \<open>
  \<open>for attempt in range(max_retries): ...\<close> for one chunk. The result is \<open>Inl e\<close> when
  \<open>e\<close> is raised, \<open>Inr (Some t)\<close> when \<open>t\<close> is appended to \<open>out\<close>, and \<open>Inr None\<close> when the
  loop ends without appending anything.
\<close>

function ocr_retry ::
  "image model \<Rightarrow> image \<Rightarrow> int \<Rightarrow> int \<Rightarrow> world \<Rightarrow> (exn + pystr option) \<times> world" where
  "ocr_retry model c max_retries attempt w =
     (if attempt < max_retries then
        (case ocr_attempt (model (calls w) c) max_retries attempt of
           Value t \<Rightarrow> (Inr (Some t), invoke w)
         | Raised e \<Rightarrow> (Inl e, invoke w)
         | Sleep_then_retry s \<Rightarrow>
             ocr_retry model c max_retries (attempt + 1) (sleep s (invoke w)))
      else (Inr None, w))"
  by pat_completeness auto
termination
  by (relation "measure (\<lambda>(model, c, max_retries, attempt, w). nat (max_retries - attempt))")
     auto

declare ocr_retry.simps [simp del]

text \<open>\<open>for c in chunks: ...\<close> with the list \<open>out\<close>.\<close>

fun ocr_chunks ::
  "image model \<Rightarrow> int \<Rightarrow> image list \<Rightarrow> pystr list \<Rightarrow> world \<Rightarrow> (exn + pystr list) \<times> world"
  where
  "ocr_chunks model max_retries [] out w = (Inr out, w)"
| "ocr_chunks model max_retries (c # cs) out w =
     (case ocr_retry model c max_retries 0 w of
        (Inl e, w') \<Rightarrow> (Inl e, w')
      | (Inr None, w') \<Rightarrow> ocr_chunks model max_retries cs out w'
      | (Inr (Some t), w') \<Rightarrow> ocr_chunks model max_retries cs (out @ [t]) w')"

text \<open>\<open>def ocr_page(model, img, max_retries=3)\<close>, ending in \<open>return "\n".join(out)\<close>.\<close>

definition ocr_page :: "image model \<Rightarrow> image \<Rightarrow> int \<Rightarrow> world \<Rightarrow> (exn + pystr) \<times> world" where
  "ocr_page model img max_retries w =
     (case ocr_chunks model max_retries (split_vertical img) [] w of
        (Inl e, w') \<Rightarrow> (Inl e, w')
      | (Inr out, w') \<Rightarrow> (Inr (join [10] out), w'))"

text \<open>
  What the text of a chunk can be: the empty string, or the stripped concatenation of the
  part texts of the first candidate of some reply of the model to that chunk.
\<close>

definition chunk_text :: "image model \<Rightarrow> image \<Rightarrow> pystr \<Rightarrow> bool" where
  "chunk_text model c t \<longleftrightarrow>
     t = [] \<or> (\<exists>n r cand rest. model n c = Return r \<and> candidates r = cand # rest
                 \<and> t = strip (concat (map text_or_empty cand)))"

text \<open>
  The body of the retry loop of \<open>correct_text\<close> for one attempt. An exception raised by
  reading \<open>r.text\<close> is handled by the same \<open>except\<close> clauses as one raised by the call.
\<close>

definition correct_handler :: "exn \<Rightarrow> pystr \<Rightarrow> int \<Rightarrow> int \<Rightarrow> outcome" where
  "correct_handler e raw max_retries attempt =
     (if kind e = IndexError \<or> kind e = AttributeError then
        (if attempt < max_retries - 1 then Sleep_then_retry ((attempt + 1) * 10)
         else Value raw)
      else if is_timeout e then
        (if attempt < max_retries - 1 then Sleep_then_retry ((attempt + 1) * 10)
         else Raised e)
      else Raised e)"

definition correct_attempt :: "reply \<Rightarrow> pystr \<Rightarrow> int \<Rightarrow> int \<Rightarrow> outcome" where
  "correct_attempt rep raw max_retries attempt =
     (case rep of
        Return r \<Rightarrow>
          (if candidates r = [] then
             (if attempt < max_retries - 1 then Sleep_then_retry ((attempt + 1) * 10)
              else Value raw)
           else
             (case text_attr r of
                Inr t \<Rightarrow> Value (strip t)
              | Inl e \<Rightarrow> correct_handler e raw max_retries attempt))
      | Raise e \<Rightarrow> correct_handler e raw max_retries attempt)"

text \<open>
  \<open>def correct_text(model, raw, max_retries=3)\<close>: the loop from a given attempt on.
  \<open>Inr None\<close> is the \<open>None\<close> a Python function returns when its body ends without a
  \<open>return\<close>.
\<close>

function correct_retry ::
  "pystr model \<Rightarrow> pystr \<Rightarrow> int \<Rightarrow> int \<Rightarrow> world \<Rightarrow> (exn + pystr option) \<times> world" where
  "correct_retry model raw max_retries attempt w =
     (if attempt < max_retries then
        (case correct_attempt (model (calls w) raw) raw max_retries attempt of
           Value t \<Rightarrow> (Inr (Some t), invoke w)
         | Raised e \<Rightarrow> (Inl e, invoke w)
         | Sleep_then_retry s \<Rightarrow>
             correct_retry model raw max_retries (attempt + 1) (sleep s (invoke w)))
      else (Inr None, w))"
  by pat_completeness auto
termination
  by (relation "measure (\<lambda>(model, raw, max_retries, attempt, w). nat (max_retries - attempt))")
     auto

declare correct_retry.simps [simp del]

definition correct_text ::
  "pystr model \<Rightarrow> pystr \<Rightarrow> int \<Rightarrow> world \<Rightarrow> (exn + pystr option) \<times> world" where
  "correct_text model raw max_retries w = correct_retry model raw max_retries 0 w"

section \<open>The pipeline (\<open>run_pipeline\<close>)\<close>

text \<open>
  One entry of the document: the tuple \<open>(idx, page_label, raw)\<close> the second pass iterates
  over, together with \<open>corrected\<close> (\<open>None\<close> in one-pass mode).
\<close>

record page_result =
  page_index :: int
  label :: pystr
  raw_text :: pystr
  corrected_text :: "pystr option"

text \<open>
  A future of the worker pool, once done: the result of \<open>_ocr_task\<close> (an exception or the
  tuple \<open>(idx, page_label, raw)\<close>) and what the task did to the remote model.
\<close>

type_synonym future = "(exn + int \<times> pystr \<times> pystr) \<times> world"

text \<open>
  The collaborators of a run.
  \<^item> \<open>pdfinfo\<close>: what \<open>pdfinfo_from_path(pdf_path)\<close> does, and the entry \<open>"Pages"\<close> of
    the dictionary it returns (\<open>None\<close> when the key is missing);
  \<^item> \<open>api_key\<close>: \<open>os.getenv("GEMINI_API_KEY")\<close>;
  \<^item> \<open>render first_page last_page\<close>: \<open>convert_from_path\<close> on that range;
  \<^item> \<open>ocr_replies idx\<close>: the replies of the OCR model to the successive invocations made
    by the task of page \<open>idx\<close> (the tasks of a batch run concurrently, so each one sees
    a sequence of its own);
  \<^item> \<open>corr_replies\<close>: the correction model, invoked sequentially;
  \<^item> \<open>as_completed\<close>: the order in which the pool hands back the futures of a batch;
  \<^item> \<open>stem\<close>: \<open>pdf_path.stem\<close>.
\<close>

record env =
  pdfinfo :: "exn + int option"
  api_key :: "pystr option"
  render :: "int \<Rightarrow> int \<Rightarrow> exn + image list"
  ocr_replies :: "int \<Rightarrow> image model"
  corr_replies :: "pystr model"
  as_completed :: "future list \<Rightarrow> future list"
  stem :: pystr

text \<open>
  The state of a run: the invocations of the OCR model so far (over all tasks), the
  effects on the correction model, the lists \<open>raw_pages\<close> and \<open>corr_pages\<close>, the entries
  appended so far (\<open>doc\<close>), and the files written, as pairs of path and content.
\<close>

record pstate =
  ocr_calls :: nat
  corr_world :: world
  raw_pages :: "pystr list"
  corr_pages :: "pystr list"
  doc :: "page_result list"
  files :: "(pystr \<times> pystr) list"

definition init_state :: pstate where
  "init_state =
     \<lparr>ocr_calls = 0, corr_world = \<lparr>calls = 0, sleeps = []\<rparr>, raw_pages = [],
      corr_pages = [], doc = [], files = []\<rparr>"

text \<open>What \<open>run_pipeline\<close> returns: \<open>None\<close>, \<open>full_raw\<close>, or \<open>(full_raw, full_corr)\<close>.\<close>

datatype ret = Ret_None | Ret_Raw pystr | Ret_Both pystr pystr

definition two_pass :: "pystr \<Rightarrow> bool" where
  "two_pass mode \<longleftrightarrow> mode = lit ''two-pass''"

text \<open>\<open>build_model\<close>: raises when the key is missing or empty.\<close>

definition build_model :: "env \<Rightarrow> exn + unit" where
  "build_model ev =
     (case api_key ev of
        None \<Rightarrow> Inl (Exn ValueError (lit ''Missing GEMINI_API_KEY in .env''))
      | Some k \<Rightarrow>
          if k = [] then Inl (Exn ValueError (lit ''Missing GEMINI_API_KEY in .env''))
          else Inr ())"

text \<open>
  \<open>def _ocr_task(idx, page, total)\<close>, run by a worker: \<open>ocr_page\<close> with the default
  \<open>max_retries = 3\<close>.
\<close>

definition ocr_task :: "env \<Rightarrow> int \<Rightarrow> int \<Rightarrow> image \<Rightarrow> future" where
  "ocr_task ev start_page idx page =
     (case ocr_page (ocr_replies ev idx) page 3 \<lparr>calls = 0, sleeps = []\<rparr> of
        (Inl e, w) \<Rightarrow> (Inl e, w)
      | (Inr raw, w) \<Rightarrow> (Inr (idx, label_of start_page idx, raw), w))"

text \<open>
  \<open>futures = [executor.submit(_ocr_task, batch_start + i, page, total_pages)
              for i, page in enumerate(batch_pages)]\<close>
\<close>

definition submit_all :: "env \<Rightarrow> int \<Rightarrow> int \<Rightarrow> image list \<Rightarrow> future list" where
  "submit_all ev start_page batch_start batch_pages =
     map (\<lambda>(i, page). ocr_task ev start_page (batch_start + int i) page)
       (enumerate 0 batch_pages)"

text \<open>
  \<open>for fut in as_completed(futures): batch_results.append(fut.result())\<close>: the first
  failed future in the order of completion raises its exception.
\<close>

fun collect :: "future list \<Rightarrow> exn + (int \<times> pystr \<times> pystr) list" where
  "collect [] = Inr []"
| "collect ((Inl e, w) # fs) = Inl e"
| "collect ((Inr r, w) # fs) =
     (case collect fs of Inl e \<Rightarrow> Inl e | Inr rs \<Rightarrow> Inr (r # rs))"

text \<open>\<open>f"\n{'='*20} {page_label} {'='*20}\n{text}"\<close>\<close>

definition with_header :: "pystr \<Rightarrow> pystr \<Rightarrow> pystr" where
  "with_header page_label text =
     [10] @ replicate 20 61 @ [32] @ page_label @ [32] @ replicate 20 61 @ [10] @ text"

text \<open>How an f-string renders \<open>corrected\<close>, which is a string or \<open>None\<close>.\<close>

definition format_opt :: "pystr option \<Rightarrow> pystr" where
  "format_opt c = (case c of None \<Rightarrow> lit ''None'' | Some t \<Rightarrow> t)"

text \<open>
  The second pass over the sorted results of a batch:
  \<open>for idx, page_label, raw in batch_results: ...\<close>
\<close>

fun pass2 ::
  "env \<Rightarrow> pystr \<Rightarrow> (int \<times> pystr \<times> pystr) list \<Rightarrow> pstate \<Rightarrow> exn option \<times> pstate" where
  "pass2 ev mode [] st = (None, st)"
| "pass2 ev mode ((idx, page_label, raw) # rs) st =
     (if two_pass mode then
        (case correct_text (corr_replies ev) raw 3 (corr_world st) of
           (Inl e, w) \<Rightarrow> (Some e, st\<lparr>corr_world := w\<rparr>)
         | (Inr corrected, w) \<Rightarrow>
             pass2 ev mode rs
               (st\<lparr>corr_world := w,
                   raw_pages := raw_pages st @ [with_header page_label raw],
                   corr_pages := corr_pages st @ [with_header page_label (format_opt corrected)],
                   doc := doc st @
                     [\<lparr>page_index = idx, label = page_label, raw_text = raw,
                       corrected_text = Some (format_opt corrected)\<rparr>]\<rparr>))
      else
        pass2 ev mode rs
          (st\<lparr>raw_pages := raw_pages st @ [with_header page_label raw],
              doc := doc st @
                [\<lparr>page_index = idx, label = page_label, raw_text = raw,
                  corrected_text = None\<rparr>]\<rparr>))"

text \<open>
  One batch: render the window, run the OCR tasks of the pool (all of them run, also when
  one fails), collect the results in the order of completion, sort them by page index
  (\<open>batch_results.sort(key=lambda x: x[0])\<close>, a stable sort), then the second pass.
\<close>

definition run_batch ::
  "env \<Rightarrow> int \<Rightarrow> pystr \<Rightarrow> int \<Rightarrow> int \<Rightarrow> int \<Rightarrow> pstate \<Rightarrow> exn option \<times> pstate" where
  "run_batch ev start_page mode total_pages batch_size batch_start st =
     (let batch_end = batch_end_of total_pages batch_size batch_start
      in case render ev batch_start batch_end of
           Inl e \<Rightarrow> (Some e, st)
         | Inr batch_pages \<Rightarrow>
             (let futures = submit_all ev start_page batch_start batch_pages;
                  st1 = st\<lparr>ocr_calls := ocr_calls st + sum_list (map (calls \<circ> snd) futures)\<rparr>
              in case collect (as_completed ev futures) of
                   Inl e \<Rightarrow> (Some e, st1)
                 | Inr batch_results \<Rightarrow> pass2 ev mode (sort_key fst batch_results) st1))"

text \<open>The loop over the batch starts.\<close>

fun run_batches ::
  "env \<Rightarrow> int \<Rightarrow> pystr \<Rightarrow> int \<Rightarrow> int \<Rightarrow> int list \<Rightarrow> pstate \<Rightarrow> exn option \<times> pstate" where
  "run_batches ev start_page mode total_pages batch_size [] st = (None, st)"
| "run_batches ev start_page mode total_pages batch_size (batch_start # rest) st =
     (case run_batch ev start_page mode total_pages batch_size batch_start st of
        (Some e, st') \<Rightarrow> (Some e, st')
      | (None, st') \<Rightarrow> run_batches ev start_page mode total_pages batch_size rest st')"

text \<open>The end of \<open>run_pipeline\<close>: join the blocks, write the files, return the text.\<close>

definition finalize :: "env \<Rightarrow> pystr \<Rightarrow> pstate \<Rightarrow> ret \<times> pstate" where
  "finalize ev mode st =
     (let full_raw = join [10, 10] (raw_pages st);
          raw_path = lit ''ocr_output/raw/'' @ stem ev @ lit ''_ocr_raw.txt'';
          st1 = st\<lparr>files := files st @ [(raw_path, full_raw)]\<rparr>
      in if two_pass mode then
           (let full_corr = join [10, 10] (corr_pages st);
                corr_path = lit ''ocr_output/corrected/'' @ stem ev @ lit ''_ocr_corrected.txt''
            in (Ret_Both full_raw full_corr,
                st1\<lparr>files := files st1 @ [(corr_path, full_corr)]\<rparr>))
         else (Ret_Raw full_raw, st1))"

text \<open>
  \<open>def run_pipeline(pdf_path, start_page=1, mode="two-pass", batch_size=10)\<close>, started in
  state \<open>st\<close>. The result is \<open>Inl e\<close> when the run ends with the exception \<open>e\<close>.
\<close>

definition run_pipeline ::
  "env \<Rightarrow> int \<Rightarrow> pystr \<Rightarrow> int \<Rightarrow> pstate \<Rightarrow> (exn + ret) \<times> pstate" where
  "run_pipeline ev start_page mode batch_size st =
     (case pdfinfo ev of
        Inl e \<Rightarrow> (Inl e, st)
      | Inr pages \<Rightarrow>
          (let total_pages = (case pages of None \<Rightarrow> 0 | Some n \<Rightarrow> n)
           in if total_pages = 0 then (Inr Ret_None, st)
              else
                (case build_model ev of
                   Inl e \<Rightarrow> (Inl e, st)
                 | Inr _ \<Rightarrow>
                    (case (if two_pass mode then build_model ev else Inr ()) of
                       Inl e \<Rightarrow> (Inl e, st)
                     | Inr _ \<Rightarrow>
                        (case py_range 1 (total_pages + 1) batch_size of
                           Inl e \<Rightarrow> (Inl e, st)
                         | Inr starts \<Rightarrow>
                            (case run_batches ev start_page mode total_pages batch_size
                                    starts st of
                               (Some e, st') \<Rightarrow> (Inl e, st')
                             | (None, st') \<Rightarrow>
                                 (case finalize ev mode st' of
                                    (r, st'') \<Rightarrow> (Inr r, st''))))))))"

section \<open>What a run keeps true\<close>

text \<open>
  The two lists of blocks are the entries of \<open>doc\<close>, rendered: a raw block for every
  entry, a corrected block for every entry in two-pass mode and none otherwise; and an
  entry has a corrected text exactly in two-pass mode.
\<close>

definition blocks_agree :: "pystr \<Rightarrow> pstate \<Rightarrow> bool" where
  "blocks_agree mode st \<longleftrightarrow>
     raw_pages st = map (\<lambda>p. with_header (label p) (raw_text p)) (doc st)
     \<and> corr_pages st =
         (if two_pass mode
          then map (\<lambda>p. with_header (label p) (format_opt (corrected_text p))) (doc st)
          else [])
     \<and> (\<forall>p \<in> set (doc st). (corrected_text p \<noteq> None) = two_pass mode)"

text \<open>
  A corrected text is the raw text of the page, or the stripped text of a reply of the
  correction model to that raw text.
\<close>

definition corrected_or_raw :: "env \<Rightarrow> pstate \<Rightarrow> bool" where
  "corrected_or_raw ev st \<longleftrightarrow>
     (\<forall>p \<in> set (doc st). \<forall>c. corrected_text p = Some c \<longrightarrow>
        c = raw_text p
        \<or> (\<exists>n r u. corr_replies ev n (raw_text p) = Return r \<and> candidates r \<noteq> []
              \<and> text_attr r = Inr u \<and> c = strip u))"

text \<open>A model whose every reply is a response without candidates.\<close>

definition always_empty :: "'q model \<Rightarrow> bool" where
  "always_empty model \<longleftrightarrow> (\<forall>n q. \<exists>r. model n q = Return r \<and> candidates r = [])"

text \<open>Every entry has its raw text as corrected text.\<close>

definition all_fallback :: "pstate \<Rightarrow> bool" where
  "all_fallback st \<longleftrightarrow> (\<forall>p \<in> set (doc st). corrected_text p = Some (raw_text p))"

text \<open>
  The page indices given to the tasks of the batch that starts at \<open>b\<close>: \<open>batch_start + i\<close>
  for every page the renderer returns.
\<close>

definition batch_indices :: "env \<Rightarrow> int \<Rightarrow> int \<Rightarrow> int \<Rightarrow> int list" where
  "batch_indices ev tp bs b =
     (case render ev b (batch_end_of tp bs b) of
        Inl e \<Rightarrow> []
      | Inr ps \<Rightarrow> map (\<lambda>i. b + int i) [0..<length ps])"

section \<open>Sample collaborators for the examples\<close>

text \<open>A model that gives the same reply to every invocation.\<close>

definition constant_model :: "reply \<Rightarrow> 'q model" where
  "constant_model rep n q = rep"

text \<open>A response without candidates, whose \<open>text\<close> accessor raises.\<close>

definition empty_response :: response where
  "empty_response = \<lparr>candidates = [], text_attr = Inl (Exn AttributeError [])\<rparr>"

text \<open>A response with one candidate of one part.\<close>

definition text_response :: "pystr \<Rightarrow> response" where
  "text_response t = \<lparr>candidates = [[Some t]], text_attr = Inr t\<rparr>"

text \<open>A model that gives \<open>rep\<close> for the request \<open>q0\<close> and no candidates for any other.\<close>

definition reply_only_to :: "'q \<Rightarrow> reply \<Rightarrow> 'q model" where
  "reply_only_to q0 rep n q = (if q = q0 then rep else Return empty_response)"

definition deadline_exceeded :: exn where
  "deadline_exceeded = Exn OtherException (lit ''504 Deadline Exceeded'')"

definition permission_denied :: exn where
  "permission_denied = Exn OtherException (lit ''403 Permission denied'')"

text \<open>A renderer for a document whose pages all have width \<open>w\<close> and height \<open>h\<close>.\<close>

definition uniform_pdf :: "int \<Rightarrow> int \<Rightarrow> int \<Rightarrow> int \<Rightarrow> exn + image list" where
  "uniform_pdf w h first_page last_page =
     Inr (map (\<lambda>i. Image (nat i) (0, 0, w, h)) [first_page..last_page])"

text \<open>An OCR model that reads \<open>"text "\<close> and the page index on every chunk of page \<open>idx\<close>.\<close>

definition page_text_model :: "int \<Rightarrow> image model" where
  "page_text_model idx n q = Return (text_response (lit ''text '' @ str_int idx))"

text \<open>
  The collaborators of a run on such a document, given the page count reported, the
  correction model and the order of completion.
\<close>

definition sample_env ::
  "int option \<Rightarrow> pystr model \<Rightarrow> (future list \<Rightarrow> future list) \<Rightarrow> env" where
  "sample_env pages corr order =
     \<lparr>pdfinfo = Inr pages, api_key = Some (lit ''key''), render = uniform_pdf 600 700,
      ocr_replies = page_text_model, corr_replies = corr, as_completed = order,
      stem = lit ''book''\<rparr>"

section \<open>Properties of the batch windows\<close>

lemma windows_from_unfold:
  "windows_from tp bs i =
     (if 0 < bs \<and> i \<le> tp then (i, batch_end_of tp bs i) # windows_from tp bs (i + bs)
      else [])"
  unfolding windows_from_def by (subst range_up.simps) auto

lemma wf_cover:
  "1 \<le> bs \<Longrightarrow> i \<le> tp + 1 \<Longrightarrow>
   concat (map (\<lambda>(s, e). [s..e]) (windows_from tp bs i)) = [i..tp]"
proof (induction i "tp + 1" bs rule: range_up.induct)
  case (1 i step)
  show ?case
  proof (cases "i \<le> tp")
    case False
    with 1 show ?thesis by (subst windows_from_unfold) simp
  next
    case True
    show ?thesis
    proof (cases "i + step \<le> tp + 1")
      case le: True
      have "concat (map (\<lambda>(s, e). [s..e]) (windows_from tp step (i + step))) = [i + step..tp]"
        using 1 True le by simp
      moreover have "batch_end_of tp step i = i + step - 1"
        using le by (simp add: batch_end_of_def)
      moreover have "[i..i + step - 1] @ [i + step..tp] = [i..tp]"
        using 1(2) le True upto_split2[of i "i + step - 1" tp] by simp
      ultimately show ?thesis using True 1(2) by (subst windows_from_unfold) simp
    next
      case gt: False
      have "windows_from tp step (i + step) = []"
        using gt by (subst windows_from_unfold) simp
      moreover have "batch_end_of tp step i = tp"
        using gt by (simp add: batch_end_of_def)
      ultimately show ?thesis using True 1(2) by (subst windows_from_unfold) simp
    qed
  qed
qed

lemma wf_sizes:
  "1 \<le> bs \<Longrightarrow> \<forall>(s, e) \<in> set (windows_from tp bs i). s \<le> e \<and> e - s + 1 \<le> bs"
proof (induction i "tp + 1" bs rule: range_up.induct)
  case (1 i step)
  show ?case
    using 1 by (subst windows_from_unfold) (auto simp: batch_end_of_def)
qed

lemma wf_hd:
  "1 \<le> bs \<Longrightarrow> i \<le> tp \<Longrightarrow> windows_from tp bs i \<noteq> [] \<and> fst (hd (windows_from tp bs i)) = i"
  by (subst (1 2) windows_from_unfold) simp

lemma wf_last: "1 \<le> bs \<Longrightarrow> i \<le> tp \<Longrightarrow> snd (last (windows_from tp bs i)) = tp"
proof (induction i "tp + 1" bs rule: range_up.induct)
  case (1 i step)
  show ?case
  proof (cases "i + step \<le> tp")
    case True
    then have "windows_from tp step (i + step) \<noteq> []"
      using wf_hd[of step "i + step" tp] 1(2) by simp
    then show ?thesis using 1 True by (subst windows_from_unfold) simp
  next
    case False
    then have "windows_from tp step (i + step) = []"
      by (subst windows_from_unfold) simp
    then show ?thesis
      using 1 False by (subst windows_from_unfold) (simp add: batch_end_of_def)
  qed
qed

lemma wf_chain:
  "1 \<le> bs \<Longrightarrow> successively (\<lambda>(s, e) (s', e'). s' = e + 1) (windows_from tp bs i)"
proof (induction i "tp + 1" bs rule: range_up.induct)
  case (1 i step)
  show ?case
  proof (cases "i + step \<le> tp")
    case True
    then have "windows_from tp step (i + step) \<noteq> []
        \<and> fst (hd (windows_from tp step (i + step))) = i + step"
      using wf_hd[of step "i + step" tp] 1(2) by simp
    then obtain e ws where "windows_from tp step (i + step) = (i + step, e) # ws"
      by (cases "windows_from tp step (i + step)") auto
    then show ?thesis
      using 1 True by (subst windows_from_unfold) (auto simp: batch_end_of_def)
  next
    case False
    then have "windows_from tp step (i + step) = []"
      by (subst windows_from_unfold) simp
    then show ?thesis by (subst windows_from_unfold) simp
  qed
qed

lemma wf_full:
  "1 \<le> bs \<Longrightarrow> \<forall>(s, e) \<in> set (butlast (windows_from tp bs i)). e - s + 1 = bs"
proof (induction i "tp + 1" bs rule: range_up.induct)
  case (1 i step)
  show ?case
  proof (cases "i + step \<le> tp")
    case True
    then show ?thesis
      using 1 by (subst windows_from_unfold) (auto simp: batch_end_of_def)
  next
    case False
    then have "windows_from tp step (i + step) = []"
      by (subst windows_from_unfold) simp
    then show ?thesis by (subst windows_from_unfold) simp
  qed
qed

lemma batch_windows_from_1: "1 \<le> bs \<Longrightarrow> batch_windows tp bs = Inr (windows_from tp bs 1)"
  by (simp add: batch_windows_def py_range_def windows_from_def)

text \<open>
  Claim C2. For \<open>total_pages \<ge> 1\<close> and \<open>batch_size \<ge> 1\<close> the loop header of
  \<open>run_pipeline\<close> computes a non-empty list of windows \<open>(batch_start, batch_end)\<close> that
  starts at page 1 and ends at \<open>total_pages\<close>; each window starts right after the end of
  the one before (contiguous, no overlap); the pages of the windows, one window after
  the other, are exactly \<open>1, ..., total_pages\<close>; every window is non-empty and has at most
  \<open>batch_size\<close> pages, and every window but the last has exactly \<open>batch_size\<close> pages.
\<close>

theorem batch_windows_partition:
  assumes "1 \<le> total_pages" and "1 \<le> batch_size"
  shows "\<exists>ws. batch_windows total_pages batch_size = Inr ws
           \<and> ws \<noteq> [] \<and> fst (hd ws) = 1 \<and> snd (last ws) = total_pages
           \<and> successively (\<lambda>(s, e) (s', e'). s' = e + 1) ws
           \<and> concat (map (\<lambda>(s, e). [s..e]) ws) = [1..total_pages]
           \<and> (\<forall>(s, e) \<in> set ws. s \<le> e \<and> e - s + 1 \<le> batch_size)
           \<and> (\<forall>(s, e) \<in> set (butlast ws). e - s + 1 = batch_size)"
  using assms batch_windows_from_1[of batch_size total_pages]
    wf_hd[of batch_size 1 total_pages] wf_last[of batch_size 1 total_pages]
    wf_chain[of batch_size total_pages 1] wf_cover[of batch_size 1 total_pages]
    wf_sizes[of batch_size total_pages 1] wf_full[of batch_size total_pages 1]
  by simp

theorem batch_windows_partition_witness:
  "(1::int) \<le> 12 \<and> (1::int) \<le> 5 \<and> batch_windows 12 5 = Inr [(1, 5), (6, 10), (11, 12)]
   \<and> concat (map (\<lambda>(s, e). [s..e]) [(1, 5), (6, 10), (11, 12)]) = [1..(12::int)]"
  using batch_windows_partition[of 12 5]
  by (simp add: batch_windows_def py_range_def range_up.simps batch_end_of_def)

section \<open>Properties of the page labels\<close>

text \<open>\<open>str\<close> of a natural number is its decimal numeral.\<close>

lemma str_nat_digits: "\<forall>d \<in> set (str_nat n). 48 \<le> d \<and> d \<le> 57"
proof (induction n rule: str_nat.induct)
  case (1 n)
  then show ?case by (subst str_nat.simps) auto
qed

lemma str_nat_value: "decimal_value (str_nat n) = n"
  unfolding decimal_value_def
proof (induction n rule: str_nat.induct)
  case (1 n)
  then show ?case by (subst str_nat.simps) auto
qed

text \<open>
  Claim C8. For \<open>idx \<ge> 1\<close> (the page index) and \<open>start_page \<ge> 1\<close>, the label of the page
  is \<open>"Page "\<close> followed by the number \<open>idx - start_page + 1\<close> when that number is at least
  1, and \<open>"[Front Matter p."\<close>, the page index and \<open>"]"\<close> otherwise.
\<close>

theorem label_of_spec:
  assumes "1 \<le> idx" and "1 \<le> start_page"
  shows "(1 \<le> idx - start_page + 1 \<longrightarrow>
            label_of start_page idx = lit ''Page '' @ str_int (idx - start_page + 1))
       \<and> (idx - start_page + 1 < 1 \<longrightarrow>
            label_of start_page idx = lit ''[Front Matter p.'' @ str_int idx @ lit '']'')"
  by (simp add: label_of_def Let_def)

text \<open>With \<open>start_page = 6\<close>: the labels of the pages 3, 6 and 10.\<close>

theorem label_of_spec_witness:
  "label_of 6 3 = lit ''[Front Matter p.3]'' \<and> label_of 6 6 = lit ''Page 1''
   \<and> label_of 6 10 = lit ''Page 5''"
  using label_of_spec[of 3 6] label_of_spec[of 6 6] label_of_spec[of 10 6]
  by (simp add: lit_def str_int_def str_nat.simps)

section \<open>Properties of the retry loops\<close>

lemma ocr_retry_sleep:
  "attempt < max_retries \<Longrightarrow>
   ocr_attempt (model (calls w) c) max_retries attempt = Sleep_then_retry s \<Longrightarrow>
   ocr_retry model c max_retries attempt w =
     ocr_retry model c max_retries (attempt + 1) (sleep s (invoke w))"
  by (subst ocr_retry.simps) simp

lemma ocr_retry_value:
  "attempt < max_retries \<Longrightarrow>
   ocr_attempt (model (calls w) c) max_retries attempt = Value t \<Longrightarrow>
   ocr_retry model c max_retries attempt w = (Inr (Some t), invoke w)"
  by (subst ocr_retry.simps) simp

lemma ocr_retry_raised:
  "attempt < max_retries \<Longrightarrow>
   ocr_attempt (model (calls w) c) max_retries attempt = Raised e \<Longrightarrow>
   ocr_retry model c max_retries attempt w = (Inl e, invoke w)"
  by (subst ocr_retry.simps) simp

lemma ocr_retry_exhausted:
  "\<not> attempt < max_retries \<Longrightarrow> ocr_retry model c max_retries attempt w = (Inr None, w)"
  by (subst ocr_retry.simps) simp

lemma correct_retry_sleep:
  "attempt < max_retries \<Longrightarrow>
   correct_attempt (model (calls w) raw) raw max_retries attempt = Sleep_then_retry s \<Longrightarrow>
   correct_retry model raw max_retries attempt w =
     correct_retry model raw max_retries (attempt + 1) (sleep s (invoke w))"
  by (subst correct_retry.simps) simp

lemma correct_retry_value:
  "attempt < max_retries \<Longrightarrow>
   correct_attempt (model (calls w) raw) raw max_retries attempt = Value t \<Longrightarrow>
   correct_retry model raw max_retries attempt w = (Inr (Some t), invoke w)"
  by (subst correct_retry.simps) simp

lemma correct_retry_raised:
  "attempt < max_retries \<Longrightarrow>
   correct_attempt (model (calls w) raw) raw max_retries attempt = Raised e \<Longrightarrow>
   correct_retry model raw max_retries attempt w = (Inl e, invoke w)"
  by (subst correct_retry.simps) simp

lemma correct_retry_exhausted:
  "\<not> attempt < max_retries \<Longrightarrow> correct_retry model raw max_retries attempt w = (Inr None, w)"
  by (subst correct_retry.simps) simp

lemma calls_step [simp]: "calls (sleep s (invoke w)) = calls w + 1"
  by (simp add: sleep_def invoke_def)

text \<open>Three attempts that sleep, sleep and end: the shape of every exhausted retry.\<close>

lemma ocr_retry_three:
  assumes "ocr_attempt (model (calls w) c) 3 0 = Sleep_then_retry 10"
    and "ocr_attempt (model (calls w + 1) c) 3 1 = Sleep_then_retry 20"
    and "ocr_attempt (model (calls w + 2) c) 3 2 = last_outcome"
    and "last_outcome = Value t \<or> last_outcome = Raised e"
  shows "ocr_retry model c 3 0 w =
           (case last_outcome of Value t \<Rightarrow> Inr (Some t) | Raised e \<Rightarrow> Inl e | _ \<Rightarrow> Inr None,
            w\<lparr>calls := calls w + 3, sleeps := sleeps w @ [10, 20]\<rparr>)"
proof -
  let ?w1 = "sleep 10 (invoke w)"
  let ?w2 = "sleep 20 (invoke ?w1)"
  have 1: "ocr_retry model c 3 0 w = ocr_retry model c 3 1 ?w1"
    using ocr_retry_sleep[of 0 3 model w c 10] assms(1) by simp
  have 2: "ocr_retry model c 3 1 ?w1 = ocr_retry model c 3 2 ?w2"
    using ocr_retry_sleep[of 1 3 model ?w1 c 20] assms(2) by simp
  have c2: "calls ?w2 = calls w + 2" by simp
  have w3: "invoke ?w2 = w\<lparr>calls := calls w + 3, sleeps := sleeps w @ [10, 20]\<rparr>"
    by (simp add: sleep_def invoke_def)
  from assms(4) show ?thesis
  proof
    assume v: "last_outcome = Value t"
    then have "ocr_retry model c 3 2 ?w2 = (Inr (Some t), invoke ?w2)"
      using ocr_retry_value[of 2 3 model ?w2 c t] assms(3) c2 by simp
    with 1 2 v w3 show ?thesis by simp
  next
    assume r: "last_outcome = Raised e"
    then have "ocr_retry model c 3 2 ?w2 = (Inl e, invoke ?w2)"
      using ocr_retry_raised[of 2 3 model ?w2 c e] assms(3) c2 by simp
    with 1 2 r w3 show ?thesis by simp
  qed
qed

lemma correct_retry_three:
  assumes "correct_attempt (model (calls w) raw) raw 3 0 = Sleep_then_retry 10"
    and "correct_attempt (model (calls w + 1) raw) raw 3 1 = Sleep_then_retry 20"
    and "correct_attempt (model (calls w + 2) raw) raw 3 2 = last_outcome"
    and "last_outcome = Value t \<or> last_outcome = Raised e"
  shows "correct_retry model raw 3 0 w =
           (case last_outcome of Value t \<Rightarrow> Inr (Some t) | Raised e \<Rightarrow> Inl e | _ \<Rightarrow> Inr None,
            w\<lparr>calls := calls w + 3, sleeps := sleeps w @ [10, 20]\<rparr>)"
proof -
  let ?w1 = "sleep 10 (invoke w)"
  let ?w2 = "sleep 20 (invoke ?w1)"
  have 1: "correct_retry model raw 3 0 w = correct_retry model raw 3 1 ?w1"
    using correct_retry_sleep[of 0 3 model w raw 10] assms(1) by simp
  have 2: "correct_retry model raw 3 1 ?w1 = correct_retry model raw 3 2 ?w2"
    using correct_retry_sleep[of 1 3 model ?w1 raw 20] assms(2) by simp
  have c2: "calls ?w2 = calls w + 2" by simp
  have w3: "invoke ?w2 = w\<lparr>calls := calls w + 3, sleeps := sleeps w @ [10, 20]\<rparr>"
    by (simp add: sleep_def invoke_def)
  from assms(4) show ?thesis
  proof
    assume v: "last_outcome = Value t"
    then have "correct_retry model raw 3 2 ?w2 = (Inr (Some t), invoke ?w2)"
      using correct_retry_value[of 2 3 model ?w2 raw t] assms(3) c2 by simp
    with 1 2 v w3 show ?thesis by simp
  next
    assume r: "last_outcome = Raised e"
    then have "correct_retry model raw 3 2 ?w2 = (Inl e, invoke ?w2)"
      using correct_retry_raised[of 2 3 model ?w2 raw e] assms(3) c2 by simp
    with 1 2 r w3 show ?thesis by simp
  qed
qed

lemma ocr_attempt_empty:
  "candidates r = [] \<Longrightarrow>
   ocr_attempt (Return r) max_retries attempt =
     (if attempt < max_retries - 1 then Sleep_then_retry ((attempt + 1) * 10) else Value [])"
  by (simp add: ocr_attempt_def)

lemma correct_attempt_empty:
  "candidates r = [] \<Longrightarrow>
   correct_attempt (Return r) raw max_retries attempt =
     (if attempt < max_retries - 1 then Sleep_then_retry ((attempt + 1) * 10) else Value raw)"
  by (simp add: correct_attempt_def)

lemma ocr_retry_empty3:
  assumes "\<And>n. \<exists>r. model n c = Return r \<and> candidates r = []"
  shows "ocr_retry model c 3 0 w =
           (Inr (Some []), w\<lparr>calls := calls w + 3, sleeps := sleeps w @ [10, 20]\<rparr>)"
proof -
  have "ocr_attempt (model n c) 3 a =
          (if a < 2 then Sleep_then_retry ((a + 1) * 10) else Value [])" for n a
    using assms[of n] by (auto simp: ocr_attempt_empty)
  then show ?thesis
    using ocr_retry_three[of model w c "Value []" "[]"] by simp
qed

lemma correct_retry_empty3:
  assumes "\<And>n. \<exists>r. model n raw = Return r \<and> candidates r = []"
  shows "correct_retry model raw 3 0 w =
           (Inr (Some raw), w\<lparr>calls := calls w + 3, sleeps := sleeps w @ [10, 20]\<rparr>)"
proof -
  have "correct_attempt (model n raw) raw 3 a =
          (if a < 2 then Sleep_then_retry ((a + 1) * 10) else Value raw)" for n a
    using assms[of n] by (auto simp: correct_attempt_empty)
  then show ?thesis
    using correct_retry_three[of model w raw "Value raw" raw] by simp
qed

text \<open>
  Claim C3. When every invocation of the model returns a response without candidates, the
  retry loop with \<open>max_retries = 3\<close> invokes the model exactly three times, sleeps 10 and
  then 20 seconds between the attempts, raises nothing and ends with the fallback: the
  empty string is appended for the chunk in \<open>ocr_page\<close>, and \<open>correct_text\<close> returns the
  raw text it was given.
\<close>

theorem empty_response_fallback:
  "((\<forall>n. \<exists>r. ocr_model n c = Return r \<and> candidates r = []) \<longrightarrow>
      ocr_retry ocr_model c 3 0 w =
        (Inr (Some []), w\<lparr>calls := calls w + 3, sleeps := sleeps w @ [10, 20]\<rparr>))
   \<and> ((\<forall>n. \<exists>r. corr_model n raw = Return r \<and> candidates r = []) \<longrightarrow>
      correct_text corr_model raw 3 w' =
        (Inr (Some raw), w'\<lparr>calls := calls w' + 3, sleeps := sleeps w' @ [10, 20]\<rparr>))"
  using ocr_retry_empty3[of ocr_model c w] correct_retry_empty3[of corr_model raw w']
  by (simp add: correct_text_def)

theorem empty_response_fallback_witness:
  "ocr_retry (constant_model (Return empty_response)) (Image 0 (0, 0, 600, 700)) 3 0
      \<lparr>calls = 0, sleeps = []\<rparr> = (Inr (Some []), \<lparr>calls = 3, sleeps = [10, 20]\<rparr>)
   \<and> correct_text (constant_model (Return empty_response)) (lit ''raw text'') 3
      \<lparr>calls = 0, sleeps = []\<rparr> = (Inr (Some (lit ''raw text'')), \<lparr>calls = 3, sleeps = [10, 20]\<rparr>)"
  using empty_response_fallback[of "constant_model (Return empty_response)" "Image 0 (0, 0, 600, 700)"
      "\<lparr>calls = 0, sleeps = []\<rparr>" "constant_model (Return empty_response)" "lit ''raw text''"
      "\<lparr>calls = 0, sleeps = []\<rparr>"]
  by (simp add: constant_model_def empty_response_def)

lemma ocr_attempt_timeout:
  "is_timeout e \<Longrightarrow> kind e \<noteq> IndexError \<Longrightarrow>
   ocr_attempt (Raise e) max_retries attempt =
     (if attempt < max_retries - 1 then Sleep_then_retry ((attempt + 1) * 10) else Raised e)"
  by (simp add: ocr_attempt_def)

lemma correct_attempt_timeout:
  "is_timeout e \<Longrightarrow> kind e \<noteq> IndexError \<Longrightarrow> kind e \<noteq> AttributeError \<Longrightarrow>
   correct_attempt (Raise e) raw max_retries attempt =
     (if attempt < max_retries - 1 then Sleep_then_retry ((attempt + 1) * 10) else Raised e)"
  by (simp add: correct_attempt_def correct_handler_def)

lemma ocr_retry_timeout3:
  assumes "\<And>n. \<exists>e. model n c = Raise e \<and> is_timeout e \<and> kind e \<noteq> IndexError"
  shows "\<exists>e. model (calls w + 2) c = Raise e \<and> is_timeout e
           \<and> ocr_retry model c 3 0 w =
               (Inl e, w\<lparr>calls := calls w + 3, sleeps := sleeps w @ [10, 20]\<rparr>)"
proof -
  obtain f where f: "\<And>n. model n c = Raise (f n) \<and> is_timeout (f n) \<and> kind (f n) \<noteq> IndexError"
    using assms by metis
  have "ocr_attempt (model n c) 3 a =
          (if a < 2 then Sleep_then_retry ((a + 1) * 10) else Raised (f n))" for n a
    using f[of n] by (simp add: ocr_attempt_timeout)
  then have "ocr_retry model c 3 0 w =
               (Inl (f (calls w + 2)), w\<lparr>calls := calls w + 3, sleeps := sleeps w @ [10, 20]\<rparr>)"
    using ocr_retry_three[of model w c "Raised (f (calls w + 2))" "[]" "f (calls w + 2)"]
    by simp
  then show ?thesis using f[of "calls w + 2"] by blast
qed

lemma correct_retry_timeout3:
  assumes "\<And>n. \<exists>e. model n raw = Raise e \<and> is_timeout e \<and> kind e \<noteq> IndexError
             \<and> kind e \<noteq> AttributeError"
  shows "\<exists>e. model (calls w + 2) raw = Raise e \<and> is_timeout e
           \<and> correct_retry model raw 3 0 w =
               (Inl e, w\<lparr>calls := calls w + 3, sleeps := sleeps w @ [10, 20]\<rparr>)"
proof -
  obtain f where f: "\<And>n. model n raw = Raise (f n) \<and> is_timeout (f n)
      \<and> kind (f n) \<noteq> IndexError \<and> kind (f n) \<noteq> AttributeError"
    using assms by metis
  have "correct_attempt (model n raw) raw 3 a =
          (if a < 2 then Sleep_then_retry ((a + 1) * 10) else Raised (f n))" for n a
    using f[of n] by (simp add: correct_attempt_timeout)
  then have "correct_retry model raw 3 0 w =
               (Inl (f (calls w + 2)), w\<lparr>calls := calls w + 3, sleeps := sleeps w @ [10, 20]\<rparr>)"
    using correct_retry_three[of model w raw "Raised (f (calls w + 2))" raw "f (calls w + 2)"]
    by simp
  then show ?thesis using f[of "calls w + 2"] by blast
qed

lemma ocr_attempt_fatal:
  "\<not> is_timeout e \<Longrightarrow> kind e \<noteq> IndexError \<Longrightarrow>
   ocr_attempt (Raise e) max_retries attempt = Raised e"
  by (simp add: ocr_attempt_def)

lemma correct_attempt_fatal:
  "\<not> is_timeout e \<Longrightarrow> kind e \<noteq> IndexError \<Longrightarrow> kind e \<noteq> AttributeError \<Longrightarrow>
   correct_attempt (Raise e) raw max_retries attempt = Raised e"
  by (simp add: correct_attempt_def correct_handler_def)

text \<open>
  Claim C4, as amended. A timeout is an exception whose message contains
  \<open>"DeadlineExceeded"\<close> or \<open>"504"\<close> and that is not caught by an earlier \<open>except\<close> clause:
  not an \<open>IndexError\<close> in \<open>ocr_page\<close>, neither an \<open>IndexError\<close> nor an \<open>AttributeError\<close> in
  \<open>correct_text\<close>. When every invocation fails with a timeout, the retry loop with
  \<open>max_retries = 3\<close> invokes the model exactly three times, sleeps 10 and then 20 seconds,
  and raises the exception of the third invocation. An exception that is neither a
  timeout nor of a kind caught earlier is raised by the attempt in which it occurs, with
  no further invocation and no sleep.
\<close>

theorem timeout_escalation:
  "((\<forall>n. \<exists>e. m1 n c = Raise e \<and> is_timeout e \<and> kind e \<noteq> IndexError) \<longrightarrow>
      (\<exists>e. m1 (calls w1 + 2) c = Raise e \<and> is_timeout e
         \<and> ocr_retry m1 c 3 0 w1 =
             (Inl e, w1\<lparr>calls := calls w1 + 3, sleeps := sleeps w1 @ [10, 20]\<rparr>)))
   \<and> ((\<forall>n. \<exists>e. m2 n raw = Raise e \<and> is_timeout e \<and> kind e \<noteq> IndexError
              \<and> kind e \<noteq> AttributeError) \<longrightarrow>
      (\<exists>e. m2 (calls w2 + 2) raw = Raise e \<and> is_timeout e
         \<and> correct_text m2 raw 3 w2 =
             (Inl e, w2\<lparr>calls := calls w2 + 3, sleeps := sleeps w2 @ [10, 20]\<rparr>)))
   \<and> (attempt < max_retries \<and> m3 (calls w3) c = Raise e3 \<and> \<not> is_timeout e3
         \<and> kind e3 \<noteq> IndexError \<longrightarrow>
       ocr_retry m3 c max_retries attempt w3 = (Inl e3, w3\<lparr>calls := calls w3 + 1\<rparr>))
   \<and> (attempt < max_retries \<and> m4 (calls w4) raw = Raise e4 \<and> \<not> is_timeout e4
         \<and> kind e4 \<noteq> IndexError \<and> kind e4 \<noteq> AttributeError \<longrightarrow>
       correct_retry m4 raw max_retries attempt w4 = (Inl e4, w4\<lparr>calls := calls w4 + 1\<rparr>))"
proof (intro conjI impI)
  assume "\<forall>n. \<exists>e. m1 n c = Raise e \<and> is_timeout e \<and> kind e \<noteq> IndexError"
  then show "\<exists>e. m1 (calls w1 + 2) c = Raise e \<and> is_timeout e
         \<and> ocr_retry m1 c 3 0 w1 =
             (Inl e, w1\<lparr>calls := calls w1 + 3, sleeps := sleeps w1 @ [10, 20]\<rparr>)"
    using ocr_retry_timeout3[of m1 c w1] by blast
next
  assume "\<forall>n. \<exists>e. m2 n raw = Raise e \<and> is_timeout e \<and> kind e \<noteq> IndexError
              \<and> kind e \<noteq> AttributeError"
  then show "\<exists>e. m2 (calls w2 + 2) raw = Raise e \<and> is_timeout e
         \<and> correct_text m2 raw 3 w2 =
             (Inl e, w2\<lparr>calls := calls w2 + 3, sleeps := sleeps w2 @ [10, 20]\<rparr>)"
    using correct_retry_timeout3[of m2 raw w2] unfolding correct_text_def by blast
next
  assume "attempt < max_retries \<and> m3 (calls w3) c = Raise e3 \<and> \<not> is_timeout e3
         \<and> kind e3 \<noteq> IndexError"
  then show "ocr_retry m3 c max_retries attempt w3 = (Inl e3, w3\<lparr>calls := calls w3 + 1\<rparr>)"
    using ocr_retry_raised[of attempt max_retries m3 w3 c e3]
    by (simp add: ocr_attempt_fatal invoke_def)
next
  assume "attempt < max_retries \<and> m4 (calls w4) raw = Raise e4 \<and> \<not> is_timeout e4
         \<and> kind e4 \<noteq> IndexError \<and> kind e4 \<noteq> AttributeError"
  then show "correct_retry m4 raw max_retries attempt w4 = (Inl e4, w4\<lparr>calls := calls w4 + 1\<rparr>)"
    using correct_retry_raised[of attempt max_retries m4 w4 raw e4]
    by (simp add: correct_attempt_fatal invoke_def)
qed

lemma is_timeout_deadline: "is_timeout deadline_exceeded"
  by (simp add: is_timeout_def deadline_exceeded_def lit_def)

lemma not_timeout_permission: "\<not> is_timeout permission_denied"
  by (simp add: is_timeout_def permission_denied_def lit_def)

theorem timeout_escalation_witness:
  "ocr_retry (constant_model (Raise deadline_exceeded)) (Image 0 (0, 0, 600, 700)) 3 0
      \<lparr>calls = 0, sleeps = []\<rparr> = (Inl deadline_exceeded, \<lparr>calls = 3, sleeps = [10, 20]\<rparr>)
   \<and> correct_text (constant_model (Raise deadline_exceeded)) (lit ''raw text'') 3
      \<lparr>calls = 0, sleeps = []\<rparr> = (Inl deadline_exceeded, \<lparr>calls = 3, sleeps = [10, 20]\<rparr>)
   \<and> ocr_retry (constant_model (Raise permission_denied)) (Image 0 (0, 0, 600, 700)) 3 0
      \<lparr>calls = 0, sleeps = []\<rparr> = (Inl permission_denied, \<lparr>calls = 1, sleeps = []\<rparr>)
   \<and> correct_retry (constant_model (Raise permission_denied)) (lit ''raw text'') 3 0
      \<lparr>calls = 0, sleeps = []\<rparr> = (Inl permission_denied, \<lparr>calls = 1, sleeps = []\<rparr>)"
  using timeout_escalation[of "constant_model (Raise deadline_exceeded)" "Image 0 (0, 0, 600, 700)"
      "\<lparr>calls = 0, sleeps = []\<rparr>" "constant_model (Raise deadline_exceeded)" "lit ''raw text''"
      "\<lparr>calls = 0, sleeps = []\<rparr>" 0 3 "constant_model (Raise permission_denied)"
      "\<lparr>calls = 0, sleeps = []\<rparr>" permission_denied "constant_model (Raise permission_denied)"
      "\<lparr>calls = 0, sleeps = []\<rparr>" permission_denied]
    is_timeout_deadline not_timeout_permission
  by (simp add: constant_model_def) (simp add: deadline_exceeded_def permission_denied_def)

text \<open>
  Claim C4 as stated fails: an \<open>IndexError\<close> whose message contains \<open>"504"\<close> is handled by
  \<open>except IndexError\<close> in \<open>ocr_page\<close>, so after three attempts the chunk gets the empty
  string and nothing is raised; in \<open>correct_text\<close> the same holds for an
  \<open>AttributeError\<close>, and the raw text is returned.
\<close>

theorem timeout_message_counterexample:
  "is_timeout (Exn IndexError (lit ''504 Deadline Exceeded''))
   \<and> ocr_retry (constant_model (Raise (Exn IndexError (lit ''504 Deadline Exceeded''))))
       (Image 0 (0, 0, 600, 700)) 3 0 \<lparr>calls = 0, sleeps = []\<rparr>
     = (Inr (Some []), \<lparr>calls = 3, sleeps = [10, 20]\<rparr>)
   \<and> is_timeout (Exn AttributeError (lit ''504 Deadline Exceeded''))
   \<and> correct_text (constant_model (Raise (Exn AttributeError (lit ''504 Deadline Exceeded''))))
       (lit ''raw text'') 3 \<lparr>calls = 0, sleeps = []\<rparr>
     = (Inr (Some (lit ''raw text'')), \<lparr>calls = 3, sleeps = [10, 20]\<rparr>)"
proof -
  let ?e = "Exn IndexError (lit ''504 Deadline Exceeded'')"
  let ?a = "Exn AttributeError (lit ''504 Deadline Exceeded'')"
  have t: "is_timeout ?e" "is_timeout ?a"
    by (simp_all add: is_timeout_def lit_def)
  have o: "ocr_attempt (constant_model (Raise ?e) n c) 3 a =
             (if a < 2 then Sleep_then_retry ((a + 1) * 10) else Value [])"
    for n and c :: image and a
    by (simp add: constant_model_def ocr_attempt_def)
  have c: "correct_attempt (constant_model (Raise ?a) n raw) raw 3 a =
             (if a < 2 then Sleep_then_retry ((a + 1) * 10) else Value raw)"
    for n and raw :: pystr and a
    by (simp add: constant_model_def correct_attempt_def correct_handler_def)
  have "ocr_retry (constant_model (Raise ?e)) (Image 0 (0, 0, 600, 700)) 3 0 \<lparr>calls = 0, sleeps = []\<rparr>
          = (Inr (Some []), \<lparr>calls = 3, sleeps = [10, 20]\<rparr>)"
    using ocr_retry_three[of "constant_model (Raise ?e)" "\<lparr>calls = 0, sleeps = []\<rparr>"
        "Image 0 (0, 0, 600, 700)" "Value []" "[]"] o
    by simp
  moreover have "correct_text (constant_model (Raise ?a)) (lit ''raw text'') 3 \<lparr>calls = 0, sleeps = []\<rparr>
          = (Inr (Some (lit ''raw text'')), \<lparr>calls = 3, sleeps = [10, 20]\<rparr>)"
    using correct_retry_three[of "constant_model (Raise ?a)" "\<lparr>calls = 0, sleeps = []\<rparr>"
        "lit ''raw text''" "Value (lit ''raw text'')" "lit ''raw text''"] c
    by (simp add: correct_text_def)
  ultimately show ?thesis using t by simp
qed

lemma correct_attempt_sleep:
  "correct_attempt rep raw max_retries attempt = Sleep_then_retry s \<Longrightarrow>
   attempt < max_retries - 1 \<and> s = (attempt + 1) * 10"
  by (auto simp: correct_attempt_def correct_handler_def split: reply.splits sum.splits if_splits)

lemma correct_attempt_value:
  "correct_attempt rep raw max_retries attempt = Value t \<Longrightarrow>
   t = raw \<or> (\<exists>r u. rep = Return r \<and> candidates r \<noteq> [] \<and> text_attr r = Inr u \<and> t = strip u)"
  by (auto simp: correct_attempt_def correct_handler_def split: reply.splits sum.splits if_splits)

lemma correct_retry_not_None:
  "attempt < max_retries \<Longrightarrow> fst (correct_retry model raw max_retries attempt w) \<noteq> Inr None"
proof (induction model raw max_retries attempt w rule: correct_retry.induct)
  case (1 model raw max_retries attempt w)
  show ?case
  proof (cases "correct_attempt (model (calls w) raw) raw max_retries attempt")
    case (Value t)
    then show ?thesis using 1(2) by (simp add: correct_retry_value)
  next
    case (Raised e)
    then show ?thesis using 1(2) by (simp add: correct_retry_raised)
  next
    case (Sleep_then_retry s)
    then have "attempt + 1 < max_retries" using correct_attempt_sleep by fastforce
    then show ?thesis
      using 1 Sleep_then_retry by (simp add: correct_retry_sleep)
  qed
qed

lemma correct_retry_Some:
  "fst (correct_retry model raw max_retries attempt w) = Inr (Some t) \<Longrightarrow>
   t = raw \<or> (\<exists>n r u. model n raw = Return r \<and> candidates r \<noteq> [] \<and> text_attr r = Inr u
                \<and> t = strip u)"
proof (induction model raw max_retries attempt w rule: correct_retry.induct)
  case (1 model raw max_retries attempt w)
  show ?case
  proof (cases "attempt < max_retries")
    case False
    then show ?thesis using 1(2) by (simp add: correct_retry_exhausted)
  next
    case True
    show ?thesis
    proof (cases "correct_attempt (model (calls w) raw) raw max_retries attempt")
      case (Value u)
      then have "u = t" using 1(2) True by (simp add: correct_retry_value)
      then show ?thesis using correct_attempt_value[OF Value] by blast
    next
      case (Raised e)
      then show ?thesis using 1(2) True by (simp add: correct_retry_raised)
    next
      case (Sleep_then_retry s)
      then show ?thesis
        using 1 True by (simp add: correct_retry_sleep)
    qed
  qed
qed

text \<open>
  Claim C10. For \<open>max_retries \<ge> 1\<close>, \<open>correct_text\<close> ends by raising an exception or by
  returning a string, which is the unchanged input or the stripped text of a response of
  the model; it never returns \<open>None\<close>. For \<open>max_retries \<le> 0\<close> the loop body does not run:
  \<open>None\<close> is returned and the model is not invoked. (The function is total: the loop is
  defined by recursion with a termination proof.)
\<close>

theorem correct_text_never_None:
  "(1 \<le> max_retries \<longrightarrow>
      (\<exists>w'. (\<exists>e. correct_text model raw max_retries w = (Inl e, w'))
           \<or> correct_text model raw max_retries w = (Inr (Some raw), w')
           \<or> (\<exists>n r u. model n raw = Return r \<and> candidates r \<noteq> [] \<and> text_attr r = Inr u
                \<and> correct_text model raw max_retries w = (Inr (Some (strip u)), w'))))
   \<and> (max_retries \<le> 0 \<longrightarrow> correct_text model raw max_retries w = (Inr None, w))"
proof (intro conjI impI)
  assume m: "1 \<le> max_retries"
  obtain res w' where r: "correct_text model raw max_retries w = (res, w')"
    by (cases "correct_text model raw max_retries w")
  have nn: "res \<noteq> Inr None"
    using correct_retry_not_None[of 0 max_retries model raw w] m r by (simp add: correct_text_def)
  show "\<exists>w'. (\<exists>e. correct_text model raw max_retries w = (Inl e, w'))
           \<or> correct_text model raw max_retries w = (Inr (Some raw), w')
           \<or> (\<exists>n r u. model n raw = Return r \<and> candidates r \<noteq> [] \<and> text_attr r = Inr u
                \<and> correct_text model raw max_retries w = (Inr (Some (strip u)), w'))"
  proof (cases res)
    case (Inl e)
    then show ?thesis using r by auto
  next
    case (Inr opt)
    then obtain t where t: "res = Inr (Some t)" using nn by (cases opt) auto
    then have "t = raw \<or> (\<exists>n r u. model n raw = Return r \<and> candidates r \<noteq> []
        \<and> text_attr r = Inr u \<and> t = strip u)"
      using correct_retry_Some[of model raw max_retries 0 w t] r by (simp add: correct_text_def)
    then show ?thesis using r t by auto
  qed
next
  assume "max_retries \<le> 0"
  then show "correct_text model raw max_retries w = (Inr None, w)"
    by (simp add: correct_text_def correct_retry_exhausted)
qed


theorem correct_text_never_None_witness:
  "correct_text (constant_model (Return (text_response (lit '' abc '')))) (lit ''raw text'') 3
      \<lparr>calls = 0, sleeps = []\<rparr> = (Inr (Some (lit ''abc'')), \<lparr>calls = 1, sleeps = []\<rparr>)
   \<and> correct_text (constant_model (Return (text_response (lit '' abc '')))) (lit ''raw text'') 0
      \<lparr>calls = 0, sleeps = []\<rparr> = (Inr None, \<lparr>calls = 0, sleeps = []\<rparr>)"
  using correct_text_never_None[of 3 "constant_model (Return (text_response (lit '' abc '')))"
      "lit ''raw text''" "\<lparr>calls = 0, sleeps = []\<rparr>"]
    correct_text_never_None[of 0 "constant_model (Return (text_response (lit '' abc '')))"
      "lit ''raw text''" "\<lparr>calls = 0, sleeps = []\<rparr>"]
  by (simp add: correct_text_def correct_retry.simps correct_attempt_def constant_model_def
      text_response_def invoke_def strip_def lit_def py_isspace_def)

section \<open>Properties of the page splitter\<close>

text \<open>
  The rounding model: the bit length, the error of \<open>round53\<close>, and the distance of the
  double \<open>w * 1.4\<close> from the product of \<open>w\<close> with the double \<open>1.4\<close>.
\<close>

lemma bit_length_le: "n < 2 ^ b \<Longrightarrow> bit_length n \<le> b"
proof (induction n arbitrary: b rule: bit_length.induct)
  case (1 n)
  show ?case
  proof (cases "n = 0")
    case True
    then show ?thesis by (simp add: bit_length.simps)
  next
    case False
    then obtain b' where b: "b = Suc b'" using 1(2) by (cases b) auto
    then have "n div 2 < 2 ^ b'" using 1(2) by auto
    then have "bit_length (n div 2) \<le> b'" using 1(1)[OF False] by simp
    then show ?thesis using False b by (subst bit_length.simps) simp
  qed
qed

lemma round53_small: "\<bar>p\<bar> < 2 ^ 53 \<Longrightarrow> round53 p = p"
proof -
  assume "\<bar>p\<bar> < 2 ^ 53"
  then have "nat \<bar>p\<bar> < 2 ^ 53" by (simp add: nat_less_iff)
  then have "bit_length (nat \<bar>p\<bar>) - 53 = 0" using bit_length_le[of "nat \<bar>p\<bar>" 53] by simp
  then show ?thesis by (simp add: round53_def Let_def sgn_if)
qed

lemma round53_error:
  assumes "0 \<le> p"
  shows "\<bar>round53 p - p\<bar> \<le> 2 ^ (bit_length (nat p) - 53)"
proof -
  define k where "k = bit_length (nat p) - 53"
  define q where "q = p div 2 ^ k"
  define r where "r = p mod 2 ^ k"
  have p: "p = q * 2 ^ k + r" unfolding q_def r_def by (simp add: div_mult_mod_eq)
  have r: "0 \<le> r" "r < 2 ^ k" unfolding r_def by simp_all
  show ?thesis
  proof (cases "p = 0")
    case True
    then show ?thesis by (simp add: round53_def)
  next
    case False
    then have s: "sgn p = 1" "\<bar>p\<bar> = p" using assms by simp_all
    have "round53 p = q * 2 ^ k \<or> round53 p = (q + 1) * 2 ^ k"
      unfolding round53_def Let_def s q_def k_def by simp
    then show ?thesis
    proof
      assume "round53 p = q * 2 ^ k"
      then have "round53 p - p = - r" using p by linarith
      then show ?thesis using r unfolding k_def by simp
    next
      assume "round53 p = (q + 1) * 2 ^ k"
      then have "round53 p - p = 2 ^ k - r" using p by (simp add: algebra_simps)
      then show ?thesis using r unfolding k_def by simp
    qed
  qed
qed

lemma float_mul_1_4_error:
  assumes "0 \<le> w" and "w < 2 ^ 31"
  shows "\<bar>float_mul_1_4 w - w * 6305039478318694\<bar> \<le> 2 ^ 31"
proof -
  define P where "P = w * 6305039478318694"
  have w: "round53 w = w" using assms by (intro round53_small) simp
  have P0: "0 \<le> P" using assms unfolding P_def by simp
  have "P < 2 ^ 31 * 6305039478318694"
    using assms unfolding P_def by simp
  also have "\<dots> < (2::int) ^ 84" by simp
  finally have "nat P < 2 ^ 84" using P0 by (simp add: nat_less_iff)
  then have "bit_length (nat P) - 53 \<le> 31" using bit_length_le[of "nat P" 84] by simp
  then have "(2::int) ^ (bit_length (nat P) - 53) \<le> 2 ^ 31"
    by (intro power_increasing) simp_all
  then have "\<bar>round53 P - P\<bar> \<le> 2 ^ 31" using round53_error[OF P0] by linarith
  then show ?thesis using w unfolding float_mul_1_4_def P_def by simp
qed

text \<open>
  Since \<open>5 * 6305039478318694 = 7 * 2^52 - 2\<close>, the double \<open>w * 1.4\<close> is within \<open>2^-20\<close> of
  \<open>7w/5\<close> for the widths of an image. So the test of the source agrees with the exact
  comparison of \<open>h\<close> with \<open>7w/5\<close> unless \<open>h\<close> is exactly \<open>7w/5\<close>.
\<close>

lemma is_tall_exact:
  assumes "0 \<le> w" and "w < 2 ^ 31" and "5 * h \<noteq> 7 * w"
  shows "is_tall w h \<longleftrightarrow> 5 * h > 7 * w"
proof -
  define F where "F = float_mul_1_4 w"
  have e: "\<bar>F - w * 6305039478318694\<bar> \<le> 2147483648"
    using float_mul_1_4_error[OF assms(1,2)] unfolding F_def by simp
  have w: "w < 2147483648" using assms(2) by simp
  have "h * 4503599627370496 > F \<longleftrightarrow> 5 * h > 7 * w"
    using e w assms(1,3) by linarith
  then show ?thesis unfolding is_tall_def F_def by simp
qed

lemma bit_length_eq: "2 ^ b \<le> n \<Longrightarrow> n < 2 ^ Suc b \<Longrightarrow> bit_length n = Suc b"
proof (induction b arbitrary: n)
  case 0
  then have "n = 1" by simp
  then show ?case by (simp add: bit_length.simps)
next
  case (Suc b)
  then have "2 ^ b \<le> n div 2" "n div 2 < 2 ^ Suc b" by auto
  then have "bit_length (n div 2) = Suc b" using Suc.IH by blast
  moreover have "n \<noteq> 0"
    using Suc.prems(1) one_le_power[of "2::nat" "Suc b"] by linarith
  ultimately show ?case by (subst bit_length.simps) simp
qed

text \<open>
  When \<open>h\<close> is exactly \<open>7w/5\<close>, the rounding of the product decides: \<open>5 * 1.4\<close> is the
  double \<open>7.0\<close>, and \<open>45 * 1.4\<close> is the double below \<open>63.0\<close>.
\<close>

lemma float_mul_1_4_5: "float_mul_1_4 5 = 7 * 2 ^ 52"
proof -
  have a: "round53 5 = 5" by (intro round53_small) simp
  have "bit_length (nat 31525197391593470) = Suc 54"
    by (intro bit_length_eq) simp_all
  then show ?thesis
    by (simp add: float_mul_1_4_def a) (simp add: round53_def)
qed

lemma float_mul_1_4_45: "float_mul_1_4 45 = 63 * 2 ^ 52 - 32"
proof -
  have a: "round53 45 = 45" by (intro round53_small) simp
  have "bit_length (nat 283726776524341230) = Suc 57"
    by (intro bit_length_eq) simp_all
  then show ?thesis
    by (simp add: float_mul_1_4_def a) (simp add: round53_def)
qed

lemma tie_5_7: "\<not> is_tall 5 7"
  by (simp add: is_tall_def float_mul_1_4_5)

lemma tie_45_63: "is_tall 45 63"
  by (simp add: is_tall_def float_mul_1_4_45)

lemma is_tall_600: "is_tall 600 1000" "\<not> is_tall 600 700"
  using is_tall_exact[of 600 1000] is_tall_exact[of 600 700] by simp_all

text \<open>
  The test when \<open>h\<close> is exactly \<open>7w/5\<close>, that is \<open>w = 5k\<close> and \<open>h = 7k\<close>: the exact product of
  \<open>5k\<close> with the double \<open>1.4\<close> is \<open>7k - 2k * 2^-52\<close>, and rounding it to 53 bits gives a double
  below \<open>7k\<close> exactly when the binary numeral of \<open>7k\<close> starts with \<open>111\<close>.
\<close>

lemma bit_length_bounds:
  "0 < n \<Longrightarrow> 2 ^ (bit_length n - 1) \<le> n \<and> n < 2 ^ bit_length n"
proof (induction n rule: bit_length.induct)
  case (1 n)
  show ?case
  proof (cases "n div 2 = 0")
    case True
    then have "n = 1" using 1(2) by auto
    then show ?thesis by (simp add: bit_length.simps)
  next
    case False
    then have ih: "2 ^ (bit_length (n div 2) - 1) \<le> n div 2" "n div 2 < 2 ^ bit_length (n div 2)"
      using 1 by auto
    have pos: "0 < bit_length (n div 2)"
      using False by (subst bit_length.simps) simp
    have b: "bit_length n = Suc (bit_length (n div 2))"
      using 1(2) by (subst bit_length.simps) simp
    have "2 ^ bit_length (n div 2) = (2::nat) * 2 ^ (bit_length (n div 2) - 1)"
      using pos by (cases "bit_length (n div 2)") simp_all
    then have "2 ^ (bit_length n - 1) \<le> n" using ih(1) b by simp
    moreover have "n < 2 ^ bit_length n" using ih(2) b by simp
    ultimately show ?thesis by simp
  qed
qed

lemma pow2_mod_7: "(2::int) ^ j mod 7 = 1 \<or> (2::int) ^ j mod 7 = 2 \<or> (2::int) ^ j mod 7 = 4"
proof (induction j)
  case 0
  then show ?case by simp
next
  case (Suc j)
  have "(2::int) ^ Suc j mod 7 = (2 * (2 ^ j mod 7)) mod 7"
    by (simp add: mod_mult_right_eq)
  then show ?case using Suc by auto
qed

lemma seven_times_not_pow2: "7 * (k::int) \<noteq> 2 ^ j"
proof
  assume "7 * k = 2 ^ j"
  then have "(2::int) ^ j mod 7 = 0" by (metis mod_mult_self1_is_0)
  then show False using pow2_mod_7[of j] by simp
qed

lemma is_tall_tie:
  assumes "0 < k" and "5 * k < 2 ^ 31"
  shows "is_tall (5 * k) (7 * k) \<longleftrightarrow> 2 ^ bit_length (nat (7 * k)) < 8 * k"
proof -
  define H where "H = 7 * k"
  define L where "L = bit_length (nat H)"
  have Hpos: "0 < H" using assms(1) by (simp add: H_def)
  have nb: "2 ^ (L - 1) \<le> nat H" "nat H < 2 ^ L"
    using bit_length_bounds[of "nat H"] Hpos unfolding L_def by simp_all
  have "L \<noteq> 0" using nb(2) Hpos by (cases L) auto
  then obtain j where L: "L = Suc j" by (cases L) auto
  define u :: int where "u = 2 ^ j"
  have upos: "0 < u" by (simp add: u_def)
  have "int (2 ^ j) \<le> int (nat H)" using nb(1) L by (simp only: of_nat_le_iff diff_Suc_1)
  then have uH: "u \<le> H" using Hpos by (simp add: u_def)
  have "int (nat H) < int (2 ^ Suc j)" using nb(2) L by (simp only: of_nat_less_iff)
  then have Hu: "H < 2 * u" using Hpos by (simp add: u_def)
  have "H \<noteq> u" unfolding H_def u_def by (rule seven_times_not_pow2)
  then have uH1: "u + 1 \<le> H" using uH by simp
  have "H < 2 ^ 32" using assms(2) by (simp add: H_def)
  then have "(2::int) ^ j < 2 ^ 32" using uH unfolding u_def by linarith
  then have j: "j < 32" by (simp only: power_strict_increasing_iff[of "2::int"])
  define t where "t = 52 - j"
  define T :: int where "T = 2 ^ t"
  have tj: "t + j = 52" using j by (simp add: t_def)
  have Tu: "T * u = 4503599627370496"
    unfolding T_def u_def power_add[symmetric] tj by simp
  have "t \<noteq> 0" using j by (simp add: t_def)
  then have evT: "even T" by (simp add: T_def)
  define P where "P = 5 * k * 6305039478318694"
  have PH: "P = H * T * u - 2 * k"
    unfolding P_def H_def by (simp add: Tu mult.assoc)
  have w: "round53 (5 * k) = 5 * k" using assms by (intro round53_small) simp
  have k31: "2 * k < 2 ^ 31" using assms by simp
  have HT: "H * T * u = H * 4503599627370496" by (simp add: Tu mult.assoc)
  have uT: "u * 4503599627370496 = 2 ^ (j + 52)"
    by (simp add: u_def power_add)
  have Plow: "2 ^ (j + 52) \<le> P"
    unfolding uT[symmetric] PH HT using uH1 k31 by simp
  have Phigh: "P < 2 ^ Suc (j + 52)"
  proof -
    have "P < H * 4503599627370496" unfolding PH HT using assms(1) by simp
    also have "\<dots> < (2 * u) * 4503599627370496" using Hu by simp
    also have "\<dots> = 2 ^ Suc (j + 52)" unfolding power_Suc uT[symmetric] by simp
    finally show ?thesis .
  qed
  have Ppos: "0 < P" using Plow zero_less_power[of "2::int" "j + 52"] by linarith
  have "bit_length (nat P) = Suc (j + 52)"
  proof (rule bit_length_eq)
    show "2 ^ (j + 52) \<le> nat P"
      using Plow Ppos by (simp add: le_nat_iff)
    show "nat P < 2 ^ Suc (j + 52)"
      using Phigh Ppos by (simp add: nat_less_iff)
  qed
  then have sh: "bit_length (nat P) - 53 = j" by simp
  have r: "0 \<le> u - 2 * k" "u - 2 * k < u"
    using Hu assms(1) upos unfolding H_def by simp_all
  have Pq: "P = u * (H * T - 1) + (u - 2 * k)"
    unfolding PH by (simp add: algebra_simps)
  have "(u * (H * T - 1) + (u - 2 * k)) div u = (H * T - 1) + (u - 2 * k) div u"
    using upos by (intro div_mult_self4) simp
  then have q: "P div u = H * T - 1" using r Pq by (simp add: div_pos_pos_trivial)
  have "(u * (H * T - 1) + (u - 2 * k)) mod u = (u - 2 * k) mod u"
    by (rule mod_mult_self4)
  also have "\<dots> = u - 2 * k" using r by (rule mod_pos_pos_trivial)
  finally have m: "P mod u = u - 2 * k" unfolding Pq[symmetric] .
  have odd: "odd (H * T - 1)" using evT by simp
  have sg: "sgn P = 1" "\<bar>P\<bar> = P" using Ppos by simp_all
  have r2: "(2 * (u - 2 * k) > u \<or> (2 * (u - 2 * k) = u \<and> odd (H * T - 1))) = (4 * k \<le> u)"
    using odd by auto
  have "round53 P = (if 4 * k \<le> u then H * T - 1 + 1 else H * T - 1) * u"
    unfolding round53_def Let_def sg sh u_def[symmetric] q m r2 by (simp only: mult_1 if_distrib)
  then have F: "float_mul_1_4 (5 * k) = (if 4 * k \<le> u then H * T else H * T - 1) * u"
    unfolding float_mul_1_4_def w P_def[symmetric] by simp
  have "is_tall (5 * k) (7 * k) \<longleftrightarrow>
          H * T * u > (if 4 * k \<le> u then H * T else H * T - 1) * u"
    unfolding is_tall_def F H_def[symmetric] by (simp add: HT)
  also have "\<dots> \<longleftrightarrow> u < 4 * k"
    using upos by (simp add: algebra_simps)
  also have "\<dots> \<longleftrightarrow> 2 ^ bit_length (nat (7 * k)) < 8 * k"
    unfolding H_def[symmetric] L_def[symmetric] L u_def by simp
  finally show ?thesis .
qed

lemma is_tall_zero: "\<not> is_tall 0 0"
proof -
  have "bit_length 0 = 0" by (subst bit_length.simps) simp
  then have "round53 0 = 0" by (simp add: round53_def)
  then show ?thesis by (simp add: is_tall_def float_mul_1_4_def)
qed

lemma tie_form: "5 * h = 7 * (w::int) \<Longrightarrow> w = 5 * (w div 5) \<and> h = 7 * (w div 5)"
  by presburger

lemma is_tall_characterised:
  assumes "0 \<le> w" and "w < 2 ^ 31"
  shows "is_tall w h \<longleftrightarrow>
           7 * w < 5 * h \<or> (7 * w = 5 * h \<and> 7 * 2 ^ bit_length (nat h) < 8 * h)"
proof (cases "5 * h = 7 * w")
  case False
  then show ?thesis using is_tall_exact[OF assms False] by auto
next
  case True
  define k where "k = w div 5"
  have wk: "w = 5 * k" and hk: "h = 7 * k" using tie_form[OF True] unfolding k_def by simp_all
  show ?thesis
  proof (cases "k = 0")
    case True
    have "bit_length 0 = 0" by (subst bit_length.simps) simp
    then show ?thesis using True wk hk is_tall_zero by simp
  next
    case False
    then have k: "0 < k" using assms(1) wk by simp
    have "5 * k < 2 ^ 31" using assms(2) wk by simp
    then have "is_tall (5 * k) (7 * k) \<longleftrightarrow> 2 ^ bit_length (nat (7 * k)) < 8 * k"
      using is_tall_tie[OF k] by simp
    then show ?thesis unfolding wk hk by simp
  qed
qed

text \<open>
  Claim C7, as amended. For an image of width \<open>w\<close> and height \<open>h\<close>, \<open>split_vertical\<close> returns
  two chunks, the top \<open>[0, mid]\<close> and the bottom \<open>[mid, h]\<close> with \<open>mid = h // 2\<close>, both of width
  \<open>w\<close>, of heights \<open>mid\<close> and \<open>h - mid\<close>, when the test \<open>h > w * 1.4\<close> of the source holds, and
  the image itself as the only chunk otherwise; it has no error result and no state. For
  \<open>0 \<le> w < 2^31\<close> the test holds exactly when \<open>h > 1.4 w\<close> (\<open>5h > 7w\<close>), or \<open>h = 1.4 w\<close> exactly
  and the binary numeral of \<open>h\<close> starts with \<open>111\<close> (\<open>7 * 2^bit_length(h) < 8h\<close>): the double
  \<open>w * 1.4\<close> is then below \<open>h\<close>.
\<close>

theorem split_vertical_spec:
  assumes "size_of page = (w, h)"
  shows "split_vertical page =
           (if is_tall w h
            then [crop page (0, 0, w, h div 2), crop page (0, h div 2, w, h)]
            else [page])
       \<and> map size_of [crop page (0, 0, w, h div 2), crop page (0, h div 2, w, h)]
           = [(w, h div 2), (w, h - h div 2)]
       \<and> (0 \<le> w \<and> w < 2 ^ 31 \<longrightarrow>
            is_tall w h
              = (7 * w < 5 * h \<or> (7 * w = 5 * h \<and> 7 * 2 ^ bit_length (nat h) < 8 * h)))"
proof -
  obtain s l u r d where p: "page = Image s (l, u, r, d)"
    by (cases page) (metis prod_cases4)
  then have wh: "w = r - l" "h = d - u" using assms by simp_all
  have "0 \<le> w \<and> w < 2 ^ 31 \<longrightarrow>
            is_tall w h
              = (7 * w < 5 * h \<or> (7 * w = 5 * h \<and> 7 * 2 ^ bit_length (nat h) < 8 * h))"
    using is_tall_characterised[of w h] by blast
  moreover have "split_vertical page =
           (if is_tall w h
            then [crop page (0, 0, w, h div 2), crop page (0, h div 2, w, h)]
            else [page])"
    using assms by (simp add: split_vertical_def Let_def)
  moreover have "map size_of [crop page (0, 0, w, h div 2), crop page (0, h div 2, w, h)]
           = [(w, h div 2), (w, h - h div 2)]"
    by (simp add: p wh)
  ultimately show ?thesis by blast
qed

theorem split_vertical_spec_witness:
  "split_vertical (Image 0 (0, 0, 600, 1000)) =
     [Image 0 (0, 0, 600, 500), Image 0 (0, 500, 600, 1000)]
   \<and> map size_of (split_vertical (Image 0 (0, 0, 600, 1000))) = [(600, 500), (600, 500)]
   \<and> split_vertical (Image 0 (0, 0, 600, 700)) = [Image 0 (0, 0, 600, 700)]"
  using split_vertical_spec[of "Image 0 (0, 0, 600, 1000)" 600 1000]
    split_vertical_spec[of "Image 0 (0, 0, 600, 700)" 600 700]
  by simp

lemma bit_length_examples: "bit_length 3640 = 12" "bit_length 63 = 6"
proof -
  have "bit_length 3640 = Suc 11" by (rule bit_length_eq) simp_all
  then show "bit_length 3640 = 12" by simp
  have "bit_length 63 = Suc 5" by (rule bit_length_eq) simp_all
  then show "bit_length 63 = 6" by simp
qed

text \<open>
  Claim C7 as stated fails where \<open>h\<close> is exactly \<open>1.4 w\<close>: the images \<open>45 \<times> 63\<close> and
  \<open>2600 \<times> 3640\<close> are split, although \<open>h > 1.4 w\<close> does not hold (\<open>5h = 7w\<close>).
\<close>

theorem split_vertical_tie_counterexample:
  "split_vertical (Image 0 (0, 0, 45, 63)) = [Image 0 (0, 0, 45, 31), Image 0 (0, 31, 45, 63)]
   \<and> \<not> 7 * 45 < 5 * (63 :: int)
   \<and> split_vertical (Image 0 (0, 0, 2600, 3640))
       = [Image 0 (0, 0, 2600, 1820), Image 0 (0, 1820, 2600, 3640)]
   \<and> \<not> 7 * 2600 < 5 * (3640 :: int)"
proof -
  have "is_tall 45 63" using is_tall_characterised[of 45 63] by (simp add: bit_length_examples)
  moreover have "is_tall 2600 3640"
    using is_tall_characterised[of 2600 3640] by (simp add: bit_length_examples)
  ultimately show ?thesis by (simp add: split_vertical_def)
qed

text \<open>An image with \<open>h = 1.4 w\<close> that is not split.\<close>

lemma split_vertical_5_7: "split_vertical (Image 0 (0, 0, 5, 7)) = [Image 0 (0, 0, 5, 7)]"
  by (simp add: split_vertical_def tie_5_7)

section \<open>Properties of the OCR of a page\<close>

text \<open>\<open>strip\<close> and \<open>join\<close>.\<close>

lemma last_dropWhile: "dropWhile P xs \<noteq> [] \<Longrightarrow> last (dropWhile P xs) = last xs"
  by (induction xs) (auto split: if_splits)

lemma trimmed_strip: "trimmed (strip s)"
proof -
  define a where "a = dropWhile py_isspace s"
  define b where "b = dropWhile py_isspace (rev a)"
  have s: "strip s = rev b" by (simp add: strip_def a_def b_def)
  show ?thesis
  proof (cases "b = []")
    case True
    then show ?thesis by (simp add: s trimmed_def)
  next
    case False
    then have hb: "\<not> py_isspace (hd b)" unfolding b_def using hd_dropWhile by blast
    have "a \<noteq> []" using False unfolding b_def by auto
    then have ha: "\<not> py_isspace (hd a)" unfolding a_def using hd_dropWhile by blast
    have "last b = last (rev a)" using False unfolding b_def by (rule last_dropWhile)
    then have "last b = hd a" using \<open>a \<noteq> []\<close> by (simp add: last_rev)
    then show ?thesis using False ha hb by (simp add: s trimmed_def hd_rev last_rev)
  qed
qed

lemma strip_trimmed: "trimmed s \<Longrightarrow> strip s = s"
proof (cases "s = []")
  case True
  then show ?thesis by (simp add: strip_def)
next
  case False
  assume "trimmed s"
  then have h: "\<not> py_isspace (hd s)" and l: "\<not> py_isspace (last s)"
    using False by (simp_all add: trimmed_def)
  have a: "dropWhile py_isspace s = s" using h False by (cases s) auto
  have "dropWhile py_isspace (rev s) = rev s"
    using l False by (cases "rev s") (auto simp: last_rev hd_rev[symmetric])
  then show ?thesis by (simp add: strip_def a)
qed

lemma join_single [simp]: "join sep [x] = x"
  by simp

lemma join_hd: "xs \<noteq> [] \<Longrightarrow> hd xs \<noteq> [] \<Longrightarrow> hd (join sep xs) = hd (hd xs)"
  by (induction sep xs rule: join.induct) auto

lemma join_nonempty: "xs \<noteq> [] \<Longrightarrow> last xs \<noteq> [] \<Longrightarrow> join sep xs \<noteq> []"
  by (induction sep xs rule: join.induct) auto

lemma join_last: "xs \<noteq> [] \<Longrightarrow> last xs \<noteq> [] \<Longrightarrow> last (join sep xs) = last (last xs)"
proof (induction sep xs rule: join.induct)
  case (3 sep x y ys)
  then have "join sep (y # ys) \<noteq> []" using join_nonempty[of "y # ys" sep] by simp
  then show ?case using 3 by simp
qed auto

lemma trimmed_join:
  assumes "xs \<noteq> []" and "hd xs \<noteq> []" and "last xs \<noteq> []" and "\<forall>t \<in> set xs. trimmed t"
  shows "trimmed (join sep xs)"
proof -
  have "trimmed (hd xs)" "trimmed (last xs)" using assms by simp_all
  then have "\<not> py_isspace (hd (hd xs))" "\<not> py_isspace (last (last xs))"
    using assms(2,3) by (simp_all add: trimmed_def)
  then show ?thesis
    using assms join_hd[of xs sep] join_last[of xs sep] by (simp add: trimmed_def)
qed

text \<open>The retry loop of a chunk and the loop over the chunks.\<close>

lemma ocr_attempt_sleep:
  "ocr_attempt rep max_retries attempt = Sleep_then_retry s \<Longrightarrow>
   attempt < max_retries - 1 \<and> s = (attempt + 1) * 10"
  by (auto simp: ocr_attempt_def split: reply.splits list.splits if_splits)

lemma ocr_attempt_value:
  "ocr_attempt rep max_retries attempt = Value t \<Longrightarrow>
   t = [] \<or> (\<exists>r cand rest. rep = Return r \<and> candidates r = cand # rest
               \<and> t = strip (concat (map text_or_empty cand)))"
  by (auto simp: ocr_attempt_def split: reply.splits list.splits if_splits)

lemma ocr_retry_result:
  "attempt < max_retries \<Longrightarrow> ocr_retry model c max_retries attempt w = (Inr x, w') \<Longrightarrow>
   \<exists>t. x = Some t \<and> chunk_text model c t"
proof (induction model c max_retries attempt w rule: ocr_retry.induct)
  case (1 model c max_retries attempt w)
  show ?case
  proof (cases "ocr_attempt (model (calls w) c) max_retries attempt")
    case (Value t)
    then have "x = Some t" using 1(2,3) by (simp add: ocr_retry_value)
    moreover have "chunk_text model c t"
      using ocr_attempt_value[OF Value] unfolding chunk_text_def by blast
    ultimately show ?thesis by blast
  next
    case (Raised e)
    then show ?thesis using 1(2,3) by (simp add: ocr_retry_raised)
  next
    case (Sleep_then_retry s)
    then have "attempt + 1 < max_retries" using ocr_attempt_sleep by fastforce
    then show ?thesis
      using 1 Sleep_then_retry by (simp add: ocr_retry_sleep)
  qed
qed

lemma ocr_chunks_out:
  "1 \<le> max_retries \<Longrightarrow> ocr_chunks model max_retries cs out w = (Inr out', w') \<Longrightarrow>
   \<exists>ts. out' = out @ ts \<and> list_all2 (chunk_text model) cs ts"
proof (induction cs arbitrary: out w)
  case Nil
  then show ?case by simp
next
  case (Cons c cs)
  obtain res w1 where r: "ocr_retry model c max_retries 0 w = (res, w1)"
    by (cases "ocr_retry model c max_retries 0 w")
  show ?case
  proof (cases res)
    case (Inl e)
    then show ?thesis using Cons.prems r by simp
  next
    case (Inr x)
    then obtain t where t: "x = Some t" "chunk_text model c t"
      using ocr_retry_result[of 0 max_retries model c w x w1] r Cons.prems(1) by auto
    then have "ocr_chunks model max_retries cs (out @ [t]) w1 = (Inr out', w')"
      using Cons.prems r Inr by simp
    then obtain ts where "out' = (out @ [t]) @ ts" "list_all2 (chunk_text model) cs ts"
      using Cons.IH[OF Cons.prems(1)] by blast
    then show ?thesis using t by (intro exI[of _ "t # ts"]) simp
  qed
qed

lemma chunk_text_trimmed: "chunk_text model c t \<Longrightarrow> trimmed t"
  unfolding chunk_text_def using trimmed_strip by (auto simp: trimmed_def)

text \<open>
  Claim C6, as amended. When \<open>ocr_page\<close> returns (with \<open>max_retries \<ge> 1\<close>), the raw text
  of the page is the texts of the chunks joined with newlines in the order of the
  chunks, where the text of a chunk is the empty string or the stripped text of a reply
  to that chunk: every chunk text is free of leading and trailing whitespace. The
  joined text itself is not stripped; it is free of leading and trailing whitespace
  when the page has a single chunk, and when the first and the last chunk text are
  not empty.
\<close>

theorem ocr_page_raw_text:
  assumes "1 \<le> max_retries" and "ocr_page model img max_retries w = (Inr raw, w')"
  shows "\<exists>out. raw = join [10] out
           \<and> list_all2 (chunk_text model) (split_vertical img) out
           \<and> (\<forall>t \<in> set out. trimmed t)
           \<and> (length out = 1 \<longrightarrow> trimmed raw)
           \<and> (hd out \<noteq> [] \<and> last out \<noteq> [] \<longrightarrow> trimmed raw)"
proof -
  obtain res w1 where r: "ocr_chunks model max_retries (split_vertical img) [] w = (res, w1)"
    by (cases "ocr_chunks model max_retries (split_vertical img) [] w")
  then obtain out where o: "res = Inr out" "raw = join [10] out"
    using assms(2) by (cases res) (auto simp: ocr_page_def)
  then have l: "list_all2 (chunk_text model) (split_vertical img) out"
    using ocr_chunks_out[OF assms(1), of model "split_vertical img" "[]" w out w1] r by simp
  have t: "\<forall>t \<in> set out. trimmed t"
  proof
    fix t assume "t \<in> set out"
    then obtain i where "i < length out" "out ! i = t" by (auto simp: in_set_conv_nth)
    then have "chunk_text model (split_vertical img ! i) t"
      using l by (auto simp: list_all2_conv_all_nth)
    then show "trimmed t" by (rule chunk_text_trimmed)
  qed
  have ne: "out \<noteq> []"
    using l by (auto simp: split_vertical_def Let_def split: prod.splits if_splits)
  have one: "length out = 1 \<longrightarrow> trimmed raw"
  proof
    assume "length out = 1"
    then obtain x where "out = [x]" by (cases out) auto
    then show "trimmed raw" using t o by simp
  qed
  have "hd out \<noteq> [] \<and> last out \<noteq> [] \<longrightarrow> trimmed raw"
    using trimmed_join[of out "[10]"] ne t o by simp
  then show ?thesis using o l t one by blast
qed

lemma split_600_1000:
  "split_vertical (Image 0 (0, 0, 600, 1000)) =
     [Image 0 (0, 0, 600, 500), Image 0 (0, 500, 600, 1000)]"
  by (simp add: split_vertical_def is_tall_600)

lemma ocr_retry_text:
  assumes "model (calls w) c = Return (text_response t)" and "0 < max_retries"
  shows "ocr_retry model c max_retries 0 w = (Inr (Some (strip t)), invoke w)"
  using assms by (intro ocr_retry_value) (simp_all add: ocr_attempt_def text_response_def text_or_empty_def)

lemma strip_abc: "strip (lit '' abc '') = lit ''abc''" "strip (lit ''abc'') = lit ''abc''"
  by (simp_all add: strip_def lit_def py_isspace_def)

theorem ocr_page_raw_text_witness:
  "ocr_page (constant_model (Return (text_response (lit '' abc '')))) (Image 0 (0, 0, 600, 1000)) 3
      \<lparr>calls = 0, sleeps = []\<rparr> = (Inr (lit ''abc'' @ [10] @ lit ''abc''), \<lparr>calls = 2, sleeps = []\<rparr>)
   \<and> trimmed (lit ''abc'' @ [10] @ lit ''abc'')"
proof -
  let ?m = "constant_model (Return (text_response (lit '' abc '')))"
  have r: "ocr_retry ?m c 3 0 w = (Inr (Some (lit ''abc'')), invoke w)" for c :: image and w
    using ocr_retry_text[of ?m w c "lit '' abc ''" 3] by (simp add: constant_model_def strip_abc)
  have e: "ocr_page ?m (Image 0 (0, 0, 600, 1000)) 3 \<lparr>calls = 0, sleeps = []\<rparr>
             = (Inr (lit ''abc'' @ [10] @ lit ''abc''), \<lparr>calls = 2, sleeps = []\<rparr>)"
    by (simp add: ocr_page_def split_600_1000 r invoke_def)
  have "hd [lit ''abc'', lit ''abc''] \<noteq> [] \<and> last [lit ''abc'', lit ''abc''] \<noteq> []"
    by (simp add: lit_def)
  then show ?thesis
    using ocr_page_raw_text[of 3 ?m "Image 0 (0, 0, 600, 1000)" "\<lparr>calls = 0, sleeps = []\<rparr>"
        "lit ''abc'' @ [10] @ lit ''abc''" "\<lparr>calls = 2, sleeps = []\<rparr>"] e
    by (simp add: trimmed_def lit_def py_isspace_def)
qed

text \<open>
  Claim C6 as stated fails on a tall page (two chunks): when both chunks fall back to
  the empty string the raw text is \<open>"\n"\<close>, and when only the bottom chunk falls back it
  is \<open>"abc\n"\<close>; both end in whitespace.
\<close>

theorem ocr_page_untrimmed_counterexample:
  "ocr_page (constant_model (Return empty_response)) (Image 0 (0, 0, 600, 1000)) 3
      \<lparr>calls = 0, sleeps = []\<rparr> = (Inr [10], \<lparr>calls = 6, sleeps = [10, 20, 10, 20]\<rparr>)
   \<and> \<not> trimmed [10]
   \<and> ocr_page (reply_only_to (Image 0 (0, 0, 600, 500)) (Return (text_response (lit ''abc''))))
       (Image 0 (0, 0, 600, 1000)) 3 \<lparr>calls = 0, sleeps = []\<rparr>
     = (Inr (lit ''abc'' @ [10]), \<lparr>calls = 4, sleeps = [10, 20]\<rparr>)
   \<and> \<not> trimmed (lit ''abc'' @ [10])"
proof -
  let ?m = "constant_model (Return empty_response) :: image model"
  let ?n = "reply_only_to (Image 0 (0, 0, 600, 500)) (Return (text_response (lit ''abc'')))"
  have m: "ocr_retry ?m c 3 0 w =
             (Inr (Some []), w\<lparr>calls := calls w + 3, sleeps := sleeps w @ [10, 20]\<rparr>)" for c w
    by (intro ocr_retry_empty3) (simp add: constant_model_def empty_response_def)
  have n1: "ocr_retry ?n (Image 0 (0, 0, 600, 500)) 3 0 w = (Inr (Some (lit ''abc'')), invoke w)"
    for w
    using ocr_retry_text[of ?n w "Image 0 (0, 0, 600, 500)" "lit ''abc''" 3]
    by (simp add: reply_only_to_def strip_abc)
  have n2: "ocr_retry ?n (Image 0 (0, 500, 600, 1000)) 3 0 w =
             (Inr (Some []), w\<lparr>calls := calls w + 3, sleeps := sleeps w @ [10, 20]\<rparr>)" for w
    by (intro ocr_retry_empty3) (simp add: reply_only_to_def empty_response_def)
  have "ocr_page ?m (Image 0 (0, 0, 600, 1000)) 3 \<lparr>calls = 0, sleeps = []\<rparr>
          = (Inr [10], \<lparr>calls = 6, sleeps = [10, 20, 10, 20]\<rparr>)"
    by (simp add: ocr_page_def split_600_1000 m)
  moreover have "ocr_page ?n (Image 0 (0, 0, 600, 1000)) 3 \<lparr>calls = 0, sleeps = []\<rparr>
          = (Inr (lit ''abc'' @ [10]), \<lparr>calls = 4, sleeps = [10, 20]\<rparr>)"
    by (simp add: ocr_page_def split_600_1000 n1 n2 invoke_def)
  moreover have "\<not> trimmed [10]" "\<not> trimmed (lit ''abc'' @ [10])"
    by (simp_all add: trimmed_def py_isspace_def lit_def)
  ultimately show ?thesis by simp
qed

section \<open>Properties of a run\<close>

lemma pass2_blocks:
  "pass2 ev mode rs st = (None, st') \<Longrightarrow> blocks_agree mode st \<Longrightarrow> blocks_agree mode st'"
proof (induction ev mode rs st rule: pass2.induct)
  case (1 ev mode st)
  then show ?case by simp
next
  case (2 ev mode idx page_label raw rs st)
  show ?case
  proof (cases "two_pass mode")
    case False
    then show ?thesis
      using 2 by (auto simp: blocks_agree_def)
  next
    case True
    obtain res w where c: "correct_text (corr_replies ev) raw 3 (corr_world st) = (res, w)"
      by (cases "correct_text (corr_replies ev) raw 3 (corr_world st)")
    show ?thesis
    proof (cases res)
      case (Inl e)
      then show ?thesis using 2(3) True c by simp
    next
      case (Inr corrected)
      then show ?thesis
        using 2(1)[OF True c[symmetric, unfolded Inr] ] 2(3,4) True c
        by (auto simp: blocks_agree_def format_opt_def)
    qed
  qed
qed

lemma blocks_agree_ocr_calls [simp]:
  "blocks_agree mode (st\<lparr>ocr_calls := n\<rparr>) = blocks_agree mode st"
  by (simp add: blocks_agree_def)

lemma corrected_or_raw_ocr_calls [simp]:
  "corrected_or_raw ev (st\<lparr>ocr_calls := n\<rparr>) = corrected_or_raw ev st"
  by (simp add: corrected_or_raw_def)

lemma all_fallback_ocr_calls [simp]:
  "all_fallback (st\<lparr>ocr_calls := n\<rparr>) = all_fallback st"
  by (simp add: all_fallback_def)

lemma correct_text_3_result:
  "correct_text model raw 3 w = (Inr corrected, w') \<Longrightarrow>
   \<exists>t. corrected = Some t
     \<and> (t = raw \<or> (\<exists>n r u. model n raw = Return r \<and> candidates r \<noteq> []
                      \<and> text_attr r = Inr u \<and> t = strip u))"
  using correct_retry_not_None[of 0 3 model raw w] correct_retry_Some[of model raw 3 0 w]
  by (cases corrected) (auto simp: correct_text_def)

lemma pass2_corrected_or_raw:
  "pass2 ev mode rs st = (None, st') \<Longrightarrow> corrected_or_raw ev st \<Longrightarrow> corrected_or_raw ev st'"
proof (induction ev mode rs st rule: pass2.induct)
  case (1 ev mode st)
  then show ?case by simp
next
  case (2 ev mode idx page_label raw rs st)
  show ?case
  proof (cases "two_pass mode")
    case False
    then show ?thesis
      using 2 by (auto simp: corrected_or_raw_def)
  next
    case True
    obtain res w where c: "correct_text (corr_replies ev) raw 3 (corr_world st) = (res, w)"
      by (cases "correct_text (corr_replies ev) raw 3 (corr_world st)")
    show ?thesis
    proof (cases res)
      case (Inl e)
      then show ?thesis using 2(3) True c by simp
    next
      case (Inr corrected)
      then obtain t where t: "corrected = Some t"
        "t = raw \<or> (\<exists>n r u. corr_replies ev n raw = Return r \<and> candidates r \<noteq> []
                      \<and> text_attr r = Inr u \<and> t = strip u)"
        using correct_text_3_result[of "corr_replies ev" raw "corr_world st" corrected w] c
        by auto
      show ?thesis
      proof (rule 2(1)[OF True c[symmetric, unfolded Inr] refl])
        show "pass2 ev mode rs
               (st\<lparr>corr_world := w,
                   raw_pages := raw_pages st @ [with_header page_label raw],
                   corr_pages := corr_pages st @ [with_header page_label (format_opt corrected)],
                   doc := doc st @
                     [\<lparr>page_index = idx, label = page_label, raw_text = raw,
                       corrected_text = Some (format_opt corrected)\<rparr>]\<rparr>) = (None, st')"
          using 2(3) True c Inr by simp
        show "corrected_or_raw ev
               (st\<lparr>corr_world := w,
                   raw_pages := raw_pages st @ [with_header page_label raw],
                   corr_pages := corr_pages st @ [with_header page_label (format_opt corrected)],
                   doc := doc st @
                     [\<lparr>page_index = idx, label = page_label, raw_text = raw,
                       corrected_text = Some (format_opt corrected)\<rparr>]\<rparr>)"
          using 2(4) t unfolding corrected_or_raw_def by (auto simp: format_opt_def)
      qed
    qed
  qed
qed

lemma pass2_all_fallback:
  "pass2 ev mode rs st = (None, st') \<Longrightarrow> always_empty (corr_replies ev) \<Longrightarrow> two_pass mode \<Longrightarrow>
   all_fallback st \<Longrightarrow> all_fallback st'"
proof (induction ev mode rs st rule: pass2.induct)
  case (1 ev mode st)
  then show ?case by simp
next
  case (2 ev mode idx page_label raw rs st)
  have "\<And>n. \<exists>r. corr_replies ev n raw = Return r \<and> candidates r = []"
    using 2(4) unfolding always_empty_def by blast
  then have c: "correct_text (corr_replies ev) raw 3 (corr_world st) =
      (Inr (Some raw), (corr_world st)\<lparr>calls := calls (corr_world st) + 3,
         sleeps := sleeps (corr_world st) @ [10, 20]\<rparr>)"
    unfolding correct_text_def by (rule correct_retry_empty3)
  show ?case
    using 2(1)[OF 2(5) c[symmetric]] 2(3,4,5,6) c
    by (auto simp: all_fallback_def format_opt_def)
qed

lemma run_batch_preserves:
  assumes "\<And>rs s s'. pass2 ev mode rs s = (None, s') \<Longrightarrow> I s \<Longrightarrow> I s'"
    and "\<And>s n. I (s\<lparr>ocr_calls := n\<rparr>) = I s"
    and "run_batch ev start_page mode tp bs b st = (None, st')"
    and "I st"
  shows "I st'"
proof -
  obtain batch_pages where "render ev b (batch_end_of tp bs b) = Inr batch_pages"
    using assms(3) by (cases "render ev b (batch_end_of tp bs b)") (auto simp: run_batch_def)
  moreover obtain rs where
    "collect (as_completed ev (submit_all ev start_page b batch_pages)) = Inr rs"
    using assms(3) calculation
    by (cases "collect (as_completed ev (submit_all ev start_page b batch_pages))")
       (auto simp: run_batch_def Let_def)
  ultimately have "pass2 ev mode (sort_key fst rs)
      (st\<lparr>ocr_calls := ocr_calls st
          + sum_list (map (calls \<circ> snd) (submit_all ev start_page b batch_pages))\<rparr>) = (None, st')"
    using assms(3) by (simp add: run_batch_def Let_def)
  then show ?thesis using assms(1,2,4) by blast
qed

lemma run_batches_preserves:
  assumes "\<And>rs s s'. pass2 ev mode rs s = (None, s') \<Longrightarrow> I s \<Longrightarrow> I s'"
    and "\<And>s n. I (s\<lparr>ocr_calls := n\<rparr>) = I s"
  shows "run_batches ev start_page mode tp bs starts st = (None, st') \<Longrightarrow> I st \<Longrightarrow> I st'"
proof (induction starts arbitrary: st)
  case Nil
  then show ?case by simp
next
  case (Cons b starts)
  obtain x st1 where r: "run_batch ev start_page mode tp bs b st = (x, st1)"
    by (cases "run_batch ev start_page mode tp bs b st")
  then have x: "x = None" using Cons.prems(1) by (cases x) auto
  then have rb: "run_batch ev start_page mode tp bs b st = (None, st1)" using r by simp
  have "I st1"
  proof (rule run_batch_preserves[where I = I and ev = ev and mode = mode])
    show "\<And>rs s s'. pass2 ev mode rs s = (None, s') \<Longrightarrow> I s \<Longrightarrow> I s'" by (rule assms(1))
    show "\<And>s n. I (s\<lparr>ocr_calls := n\<rparr>) = I s" by (rule assms(2))
    show "run_batch ev start_page mode tp bs b st = (None, st1)" by (rule rb)
    show "I st" by (rule Cons.prems(2))
  qed
  moreover have "run_batches ev start_page mode tp bs starts st1 = (None, st')"
    using Cons.prems(1) r x by simp
  ultimately show ?case using Cons.IH by blast
qed

lemma run_pipeline_cases:
  assumes "run_pipeline ev start_page mode batch_size st = (Inr r, st')"
  shows "(r = Ret_None \<and> st' = st \<and> (pdfinfo ev = Inr None \<or> pdfinfo ev = Inr (Some 0)))
       \<or> (\<exists>tp starts st1. pdfinfo ev = Inr (Some tp) \<and> tp \<noteq> 0
             \<and> py_range 1 (tp + 1) batch_size = Inr starts
             \<and> run_batches ev start_page mode tp batch_size starts st = (None, st1)
             \<and> finalize ev mode st1 = (r, st'))"
proof -
  obtain pages where p: "pdfinfo ev = Inr pages"
    using assms by (cases "pdfinfo ev") (auto simp: run_pipeline_def)
  show ?thesis
  proof (cases "pages = None \<or> pages = Some 0")
    case True
    then show ?thesis using assms p by (auto simp: run_pipeline_def)
  next
    case False
    then obtain tp where tp: "pages = Some tp" "tp \<noteq> 0" by (cases pages) auto
    have b1: "build_model ev = Inr ()"
      using assms p tp by (cases "build_model ev") (auto simp: run_pipeline_def)
    have b2: "(if two_pass mode then build_model ev else Inr ()) = Inr ()"
      using b1 by (cases "two_pass mode") simp_all
    obtain starts where s: "py_range 1 (tp + 1) batch_size = Inr starts"
      using assms p tp b1 b2
      by (cases "py_range 1 (tp + 1) batch_size") (auto simp: run_pipeline_def)
    obtain x st1 where rb: "run_batches ev start_page mode tp batch_size starts st = (x, st1)"
      by (cases "run_batches ev start_page mode tp batch_size starts st")
    have x: "x = None"
      using assms p tp b1 b2 s rb by (cases x) (auto simp: run_pipeline_def)
    have "finalize ev mode st1 = (r, st')"
      using assms p tp b1 b2 s rb x
      by (cases "finalize ev mode st1") (auto simp: run_pipeline_def)
    then show ?thesis using p tp s rb x by blast
  qed
qed

lemma finalize_doc:
  "finalize ev mode st = (r, st') \<Longrightarrow>
   doc st' = doc st \<and> raw_pages st' = raw_pages st \<and> corr_pages st' = corr_pages st
   \<and> ocr_calls st' = ocr_calls st \<and> corr_world st' = corr_world st
   \<and> r = (if two_pass mode
          then Ret_Both (join [10, 10] (raw_pages st)) (join [10, 10] (corr_pages st))
          else Ret_Raw (join [10, 10] (raw_pages st)))
   \<and> files st' = files st @
       (if two_pass mode
        then [(lit ''ocr_output/raw/'' @ stem ev @ lit ''_ocr_raw.txt'',
               join [10, 10] (raw_pages st)),
              (lit ''ocr_output/corrected/'' @ stem ev @ lit ''_ocr_corrected.txt'',
               join [10, 10] (corr_pages st))]
        else [(lit ''ocr_output/raw/'' @ stem ev @ lit ''_ocr_raw.txt'',
               join [10, 10] (raw_pages st))])"
  by (auto simp: finalize_def Let_def)

text \<open>The sample collaborators, evaluated.\<close>

lemma not_tall_600_700: "\<not> is_tall 600 700"
  using is_tall_exact[of 600 700] by simp

lemma split_600_700: "split_vertical (Image s (0, 0, 600, 700)) = [Image s (0, 0, 600, 700)]"
  by (simp add: split_vertical_def not_tall_600_700)

lemma strip_text_1: "strip (lit ''text '' @ str_int 1) = lit ''text 1''"
  by (simp add: strip_def lit_def str_int_def str_nat.simps py_isspace_def)

lemma strip_text_2: "strip (lit ''text '' @ str_int 2) = lit ''text 2''"
  by (simp add: strip_def lit_def str_int_def str_nat.simps py_isspace_def)

lemma sample_ocr_page:
  "ocr_page (page_text_model idx) (Image s (0, 0, 600, 700)) 3 w =
     (Inr (strip (lit ''text '' @ str_int idx)), invoke w)"
proof -
  have "ocr_retry (page_text_model idx) (Image s (0, 0, 600, 700)) 3 0 w =
          (Inr (Some (strip (lit ''text '' @ str_int idx))), invoke w)"
    by (rule ocr_retry_text) (simp_all add: page_text_model_def)
  then show ?thesis by (simp add: ocr_page_def split_600_700)
qed

text \<open>
  Claim C9. When the page counter reports 0 pages (the entry \<open>"Pages"\<close> is 0 or missing),
  \<open>run_pipeline\<close> returns \<open>None\<close> and leaves the state as it was: started in the initial
  state, no OCR and no correction call has been made, no file has been written and
  there is no document. No model is built either: the result does not depend on the key.
\<close>

theorem no_pages_no_output:
  assumes "pdfinfo ev = Inr pages" and "pages = None \<or> pages = Some 0"
  shows "run_pipeline ev start_page mode batch_size st = (Inr Ret_None, st)
       \<and> (case run_pipeline ev start_page mode batch_size init_state of
            (r, st') \<Rightarrow> r = Inr Ret_None \<and> ocr_calls st' = 0 \<and> calls (corr_world st') = 0
                       \<and> files st' = [] \<and> doc st' = [])"
  using assms by (auto simp: run_pipeline_def init_state_def)

theorem no_pages_no_output_witness:
  "run_pipeline (sample_env (Some 0) (constant_model (Return empty_response)) rev) 1
     (lit ''two-pass'') 10 init_state = (Inr Ret_None, init_state)
   \<and> run_pipeline (sample_env None (constant_model (Return empty_response)) rev) 1
     (lit ''two-pass'') 10 init_state = (Inr Ret_None, init_state)
   \<and> files init_state = [] \<and> ocr_calls init_state = 0 \<and> calls (corr_world init_state) = 0"
  using no_pages_no_output[of "sample_env (Some 0) (constant_model (Return empty_response)) rev"
      "Some 0" 1 "lit ''two-pass''" 10 init_state]
    no_pages_no_output[of "sample_env None (constant_model (Return empty_response)) rev"
      None 1 "lit ''two-pass''" 10 init_state]
  by (simp add: sample_env_def init_state_def)

lemma invariants_init:
  "blocks_agree mode init_state" "corrected_or_raw ev init_state" "all_fallback init_state"
  by (simp_all add: blocks_agree_def corrected_or_raw_def all_fallback_def init_state_def)

lemma finalize_invariants:
  assumes "finalize ev mode st = (r, st')"
  shows "blocks_agree mode st' = blocks_agree mode st"
    and "corrected_or_raw ev st' = corrected_or_raw ev st"
    and "all_fallback st' = all_fallback st"
  using finalize_doc[OF assms]
  by (simp_all add: blocks_agree_def corrected_or_raw_def all_fallback_def)

lemma fallback_blocks:
  "blocks_agree mode st \<Longrightarrow> all_fallback st \<Longrightarrow> two_pass mode \<Longrightarrow> corr_pages st = raw_pages st"
  by (simp add: blocks_agree_def all_fallback_def format_opt_def)

lemma sample_ocr_task:
  "ocr_task (sample_env p c f) sp idx (Image s (0, 0, 600, 700)) =
     (Inr (idx, label_of sp idx, strip (lit ''text '' @ str_int idx)), \<lparr>calls = 1, sleeps = []\<rparr>)"
  by (simp add: ocr_task_def sample_env_def sample_ocr_page invoke_def)

lemma sample_fields:
  "pdfinfo (sample_env p c f) = Inr p"
  "build_model (sample_env p c f) = Inr ()"
  "render (sample_env p c f) = uniform_pdf 600 700"
  "corr_replies (sample_env p c f) = c"
  "as_completed (sample_env p c f) = f"
  "stem (sample_env p c f) = lit ''book''"
  by (simp_all add: sample_env_def build_model_def lit_def)

lemma label_1_1: "label_of 1 1 = lit ''Page 1''" "label_of 1 2 = lit ''Page 2''"
  by (simp_all add: label_of_def lit_def str_int_def str_nat.simps)

lemma sample_submit_2:
  "submit_all (sample_env p c f) 1 1 [Image a (0, 0, 600, 700), Image b (0, 0, 600, 700)] =
     [(Inr (1, lit ''Page 1'', lit ''text 1''), \<lparr>calls = 1, sleeps = []\<rparr>),
      (Inr (2, lit ''Page 2'', lit ''text 2''), \<lparr>calls = 1, sleeps = []\<rparr>)]"
  by (simp add: submit_all_def enumerate_eq_zip sample_ocr_task label_1_1 strip_text_1 strip_text_2)

lemma empty_correct:
  "correct_text (constant_model (Return empty_response)) raw 3 w =
     (Inr (Some raw), w\<lparr>calls := calls w + 3, sleeps := sleeps w @ [10, 20]\<rparr>)"
  unfolding correct_text_def
  by (rule correct_retry_empty3) (simp add: constant_model_def empty_response_def)

lemma sample_render_2:
  "uniform_pdf 600 700 1 2 = Inr [Image 1 (0, 0, 600, 700), Image 2 (0, 0, 600, 700)]"
  by (simp add: uniform_pdf_def upto.simps)

lemma two_pass_lit: "two_pass (lit ''two-pass'')" "\<not> two_pass (lit ''one-pass'')"
  by (simp_all add: two_pass_def lit_def)

lemma sample_batch_2:
  "run_batch (sample_env p (constant_model (Return empty_response)) rev) 1 (lit ''two-pass'') 2 5 1
     init_state =
   (None,
    \<lparr>ocr_calls = 2, corr_world = \<lparr>calls = 6, sleeps = [10, 20, 10, 20]\<rparr>,
     raw_pages = [with_header (lit ''Page 1'') (lit ''text 1''),
                  with_header (lit ''Page 2'') (lit ''text 2'')],
     corr_pages = [with_header (lit ''Page 1'') (lit ''text 1''),
                   with_header (lit ''Page 2'') (lit ''text 2'')],
     doc = [\<lparr>page_index = 1, label = lit ''Page 1'', raw_text = lit ''text 1'',
              corrected_text = Some (lit ''text 1'')\<rparr>,
            \<lparr>page_index = 2, label = lit ''Page 2'', raw_text = lit ''text 2'',
              corrected_text = Some (lit ''text 2'')\<rparr>],
     files = []\<rparr>)"
  by (simp add: run_batch_def batch_end_of_def sample_fields sample_render_2 sample_submit_2
      two_pass_lit empty_correct init_state_def format_opt_def Let_def)

lemma sample_run_2:
  "run_pipeline (sample_env (Some 2) (constant_model (Return empty_response)) rev) 1
     (lit ''two-pass'') 5 init_state =
   (Inr (Ret_Both
          (join [10, 10] [with_header (lit ''Page 1'') (lit ''text 1''),
                          with_header (lit ''Page 2'') (lit ''text 2'')])
          (join [10, 10] [with_header (lit ''Page 1'') (lit ''text 1''),
                          with_header (lit ''Page 2'') (lit ''text 2'')])),
    \<lparr>ocr_calls = 2, corr_world = \<lparr>calls = 6, sleeps = [10, 20, 10, 20]\<rparr>,
     raw_pages = [with_header (lit ''Page 1'') (lit ''text 1''),
                  with_header (lit ''Page 2'') (lit ''text 2'')],
     corr_pages = [with_header (lit ''Page 1'') (lit ''text 1''),
                   with_header (lit ''Page 2'') (lit ''text 2'')],
     doc = [\<lparr>page_index = 1, label = lit ''Page 1'', raw_text = lit ''text 1'',
              corrected_text = Some (lit ''text 1'')\<rparr>,
            \<lparr>page_index = 2, label = lit ''Page 2'', raw_text = lit ''text 2'',
              corrected_text = Some (lit ''text 2'')\<rparr>],
     files = [(lit ''ocr_output/raw/'' @ lit ''book'' @ lit ''_ocr_raw.txt'',
               join [10, 10] [with_header (lit ''Page 1'') (lit ''text 1''),
                              with_header (lit ''Page 2'') (lit ''text 2'')]),
              (lit ''ocr_output/corrected/'' @ lit ''book'' @ lit ''_ocr_corrected.txt'',
               join [10, 10] [with_header (lit ''Page 1'') (lit ''text 1''),
                              with_header (lit ''Page 2'') (lit ''text 2'')])]\<rparr>)"
proof -
  have r: "py_range 1 3 5 = Inr [1]"
    by (simp add: py_range_def range_up.simps)
  show ?thesis
    unfolding run_pipeline_def
    by (simp add: sample_fields r sample_batch_2 two_pass_lit finalize_def Let_def
        del: join.simps)
qed

text \<open>The order of completion, the sort, and the order of the document.\<close>

lemma collect_Inr_D: "collect fs = Inr rs \<Longrightarrow> map fst fs = map Inr rs"
proof (induction fs arbitrary: rs rule: collect.induct)
  case 1
  then show ?case by simp
next
  case (2 e w fs)
  then show ?case by simp
next
  case (3 r w fs)
  then show ?case by (auto split: sum.splits)
qed

lemma collect_all_Inr: "map fst fs = map Inr rs \<Longrightarrow> collect fs = Inr rs"
proof (induction fs arbitrary: rs rule: collect.induct)
  case 1
  then show ?case by simp
next
  case (2 e w fs)
  then show ?case by auto
next
  case (3 r w fs)
  then show ?case by (cases rs) auto
qed

lemma filter_key_single:
  assumes "distinct (map f ys)" and "k \<in> set ys"
  shows "filter (\<lambda>x. f k = f x) ys = [k]"
  using assms
proof (induction ys)
  case Nil
  then show ?case by simp
next
  case (Cons y ys)
  show ?case
  proof (cases "y = k")
    case True
    then have "\<forall>x \<in> set ys. f k \<noteq> f x" using Cons.prems(1) by auto
    then have "filter (\<lambda>x. f k = f x) ys = []" by (simp add: filter_empty_conv)
    then show ?thesis using True by simp
  next
    case False
    then have "k \<in> set ys" using Cons.prems(2) by simp
    then have "f y \<noteq> f k" using Cons.prems(1) by auto
    then show ?thesis using Cons \<open>k \<in> set ys\<close> by simp
  qed
qed

lemma sort_key_perm_distinct:
  assumes "mset xs = mset ys" and "sorted (map f ys)" and "distinct (map f ys)"
  shows "sort_key f xs = ys"
proof (rule properties_for_sort_key)
  show "mset ys = mset xs" using assms(1) by simp
  show "sorted (map f ys)" by (rule assms(2))
  fix k assume k: "k \<in> set ys"
  have y: "filter (\<lambda>x. f k = f x) ys = [k]"
    using assms(3) k by (rule filter_key_single)
  have "mset (filter (\<lambda>x. f k = f x) xs) = filter_mset (\<lambda>x. f k = f x) (mset xs)"
    by (rule mset_filter)
  also have "\<dots> = filter_mset (\<lambda>x. f k = f x) (mset ys)"
    by (simp only: assms(1))
  also have "\<dots> = mset (filter (\<lambda>x. f k = f x) ys)"
    by (rule mset_filter[symmetric])
  also have "\<dots> = {#k#}" by (simp only: y mset.simps add_mset_commute)
  finally have "filter (\<lambda>x. f k = f x) xs = [k]"
    by (simp only: mset_single_iff)
  then show "filter (\<lambda>x. f k = f x) ys = filter (\<lambda>x. f k = f x) xs"
    using y by simp
qed

lemma pass2_doc_idx:
  "pass2 ev mode rs st = (None, st') \<Longrightarrow>
   map page_index (doc st') = map page_index (doc st) @ map fst rs"
proof (induction ev mode rs st rule: pass2.induct)
  case (1 ev mode st)
  then show ?case by simp
next
  case (2 ev mode idx page_label raw rs st)
  show ?case
  proof (cases "two_pass mode")
    case False
    then show ?thesis using 2 by simp
  next
    case True
    obtain res w where c: "correct_text (corr_replies ev) raw 3 (corr_world st) = (res, w)"
      by (cases "correct_text (corr_replies ev) raw 3 (corr_world st)")
    show ?thesis
    proof (cases res)
      case (Inl e)
      then show ?thesis using 2(3) True c by simp
    next
      case (Inr corrected)
      then show ?thesis
        using 2(1)[OF True c[symmetric, unfolded Inr] refl] 2(3) True c by simp
    qed
  qed
qed

lemma pass2_as_completed [simp]: "pass2 (ev\<lparr>as_completed := f\<rparr>) mode rs st = pass2 ev mode rs st"
proof (induction rs arbitrary: st)
  case Nil
  then show ?case by simp
next
  case (Cons a rs)
  obtain idx page_label raw where a: "a = (idx, page_label, raw)" by (cases a) auto
  show ?case unfolding a by (simp add: Cons split: prod.splits sum.splits)
qed

lemma submit_all_as_completed [simp]:
  "submit_all (ev\<lparr>as_completed := f\<rparr>) start_page b ps = submit_all ev start_page b ps"
  by (simp add: submit_all_def ocr_task_def)

lemma ocr_task_idx: "fst (ocr_task ev start_page idx page) = Inr r \<Longrightarrow> fst r = idx"
  by (auto simp: ocr_task_def split: prod.splits sum.splits)

lemma submit_all_nth:
  "i < length ps \<Longrightarrow>
   submit_all ev start_page b ps ! i = ocr_task ev start_page (b + int i) (ps ! i)"
  by (simp add: submit_all_def nth_enumerate_eq)

lemma submit_all_length [simp]: "length (submit_all ev start_page b ps) = length ps"
  by (simp add: submit_all_def)

lemma submit_all_indices:
  assumes "map fst (submit_all ev start_page b ps) = map Inr rs"
  shows "map fst rs = map (\<lambda>i. b + int i) [0..<length ps]"
proof (rule nth_equalityI)
  have l: "length rs = length ps"
    using arg_cong[OF assms, of length] by simp
  then show "length (map fst rs) = length (map (\<lambda>i. b + int i) [0..<length ps])" by simp
  fix i assume "i < length (map fst rs)"
  then have i: "i < length ps" using l by simp
  have "map fst (submit_all ev start_page b ps) ! i = map Inr rs ! i"
    using assms by simp
  then have "fst (ocr_task ev start_page (b + int i) (ps ! i)) = Inr (rs ! i)"
    using i l by (simp add: submit_all_nth)
  then have "fst (rs ! i) = b + int i" by (rule ocr_task_idx)
  then show "map fst rs ! i = map (\<lambda>i. b + int i) [0..<length ps] ! i"
    using i l by simp
qed

lemma indices_sorted:
  "sorted (map (\<lambda>i. b + int i) [0..<n])" "distinct (map (\<lambda>i. b + int i) [0..<n])"
  by (auto simp: sorted_map distinct_map inj_on_def intro!: sorted_wrt_mono_rel[of _ "(<)"])

lemma mset_Inr_eq:
  fixes xs ys :: "'a list"
  assumes "mset (map (Inr :: 'a \<Rightarrow> 'b + 'a) xs) = mset (map Inr ys)"
  shows "mset xs = mset ys"
proof -
  have "inj (image_mset (Inr :: 'a \<Rightarrow> 'b + 'a))"
    by (rule multiset.inj_map) simp
  moreover have "image_mset (Inr :: 'a \<Rightarrow> 'b + 'a) (mset xs) = image_mset Inr (mset ys)"
    using assms by simp
  ultimately show ?thesis by (rule injD)
qed

lemma all_Inr_map:
  fixes xs :: "('b + 'a) list"
  assumes "\<forall>x \<in> set xs. \<exists>r. x = Inr r"
  shows "\<exists>rs. xs = map Inr rs"
  using assms
proof (induction xs)
  case Nil
  then show ?case by simp
next
  case (Cons x xs)
  then obtain r where r: "x = Inr r" by auto
  from Cons obtain rs where rs: "xs = map Inr rs" by auto
  have "x # xs = map Inr (r # rs)" using r rs by simp
  then show ?case by (rule exI)
qed

lemma batch_results_sorted:
  assumes "mset fs' = mset (submit_all ev start_page b ps)"
    and "collect fs' = Inr rs"
  shows "collect (submit_all ev start_page b ps) = Inr (sort_key fst rs)
       \<and> map fst (sort_key fst rs) = map (\<lambda>i. b + int i) [0..<length ps]"
proof -
  define fs where "fs = submit_all ev start_page b ps"
  have m: "map fst fs' = map Inr rs" using assms(2) by (rule collect_Inr_D)
  have "set fs = set fs'"
    using assms(1) unfolding fs_def by (metis set_mset_mset)
  then have s: "set (map fst fs) = set (map fst fs')" by simp
  have "\<forall>x \<in> set (map fst fs). \<exists>r. x = Inr r"
    unfolding s m by auto
  then obtain rs0 where rs0: "map fst fs = map Inr rs0" using all_Inr_map by blast
  have "mset (map fst fs) = mset (map fst fs')"
    using assms(1) unfolding fs_def by simp
  then have "mset (map Inr rs) = mset (map Inr rs0 :: (exn + int \<times> pystr \<times> pystr) list)"
    unfolding rs0 m by simp
  then have p: "mset rs = mset rs0" by (rule mset_Inr_eq)
  have i: "map fst rs0 = map (\<lambda>i. b + int i) [0..<length ps]"
    using rs0 unfolding fs_def by (rule submit_all_indices)
  have "sort_key fst rs = rs0"
    using p by (rule sort_key_perm_distinct) (simp_all add: i indices_sorted)
  moreover have "collect fs = Inr rs0" using rs0 by (rule collect_all_Inr)
  ultimately show ?thesis using i unfolding fs_def by simp
qed

lemma run_batch_order:
  assumes perm: "\<forall>fs. mset (as_completed ev fs) = mset fs"
    and run: "run_batch ev start_page mode tp bs b st = (None, st')"
  shows "run_batch (ev\<lparr>as_completed := \<lambda>fs. fs\<rparr>) start_page mode tp bs b st = (None, st')
       \<and> (\<exists>ps. render ev b (batch_end_of tp bs b) = Inr ps
              \<and> map page_index (doc st')
                  = map page_index (doc st) @ map (\<lambda>i. b + int i) [0..<length ps])"
proof -
  obtain ps where ps: "render ev b (batch_end_of tp bs b) = Inr ps"
    using run by (cases "render ev b (batch_end_of tp bs b)") (auto simp: run_batch_def)
  define fs where "fs = submit_all ev start_page b ps"
  define st1 where "st1 = st\<lparr>ocr_calls := ocr_calls st + sum_list (map (calls \<circ> snd) fs)\<rparr>"
  obtain rs where rs: "collect (as_completed ev fs) = Inr rs"
    using run ps unfolding fs_def
    by (cases "collect (as_completed ev (submit_all ev start_page b ps))")
       (auto simp: run_batch_def Let_def)
  have p2: "pass2 ev mode (sort_key fst rs) st1 = (None, st')"
    using run ps rs unfolding fs_def st1_def by (simp add: run_batch_def Let_def)
  have "mset (as_completed ev fs) = mset fs" using perm by blast
  then have b: "collect fs = Inr (sort_key fst rs)"
    "map fst (sort_key fst rs) = map (\<lambda>i. b + int i) [0..<length ps]"
    using batch_results_sorted[of "as_completed ev fs" ev start_page b ps rs] rs
    unfolding fs_def by simp_all
  have "sort_key fst (sort_key fst rs) = sort_key fst rs"
    by (rule sort_key_id_if_sorted) simp
  then have "run_batch (ev\<lparr>as_completed := \<lambda>fs. fs\<rparr>) start_page mode tp bs b st = (None, st')"
    using ps b(1) p2 unfolding fs_def st1_def by (simp add: run_batch_def Let_def)
  moreover have "map page_index (doc st')
      = map page_index (doc st1) @ map (\<lambda>i. b + int i) [0..<length ps]"
    using pass2_doc_idx[OF p2] b(2) by simp
  moreover have "doc st1 = doc st" by (simp add: st1_def)
  ultimately show ?thesis using ps by simp
qed

lemma run_batch_as_completed_render [simp]:
  "render (ev\<lparr>as_completed := f\<rparr>) = render ev"
  by simp

lemma run_batches_order:
  assumes perm: "\<forall>fs. mset (as_completed ev fs) = mset fs"
  shows "run_batches ev start_page mode tp bs starts st = (None, st') \<Longrightarrow>
         run_batches (ev\<lparr>as_completed := \<lambda>fs. fs\<rparr>) start_page mode tp bs starts st = (None, st')
         \<and> map page_index (doc st')
             = map page_index (doc st) @ concat (map (batch_indices ev tp bs) starts)"
proof (induction starts arbitrary: st)
  case Nil
  then show ?case by simp
next
  case (Cons b starts)
  obtain x st1 where r: "run_batch ev start_page mode tp bs b st = (x, st1)"
    by (cases "run_batch ev start_page mode tp bs b st")
  then have x: "x = None" using Cons.prems by (cases x) auto
  then have rb: "run_batch ev start_page mode tp bs b st = (None, st1)" using r by simp
  have rest: "run_batches ev start_page mode tp bs starts st1 = (None, st')"
    using Cons.prems rb by simp
  from run_batch_order[OF perm rb] obtain ps where
    1: "run_batch (ev\<lparr>as_completed := \<lambda>fs. fs\<rparr>) start_page mode tp bs b st = (None, st1)"
    and 2: "render ev b (batch_end_of tp bs b) = Inr ps"
    and 3: "map page_index (doc st1)
             = map page_index (doc st) @ map (\<lambda>i. b + int i) [0..<length ps]"
    by blast
  have 4: "batch_indices ev tp bs b = map (\<lambda>i. b + int i) [0..<length ps]"
    by (simp add: batch_indices_def 2)
  show ?case using Cons.IH[OF rest] 1 3 4 by simp
qed










lemma as_completed_fields [simp]:
  "build_model (ev\<lparr>as_completed := f\<rparr>) = build_model ev"
  "finalize (ev\<lparr>as_completed := f\<rparr>) mode st = finalize ev mode st"
  by (simp_all add: build_model_def finalize_def Let_def)









lemma sample_env_order [simp]:
  "(sample_env p c f)\<lparr>as_completed := g\<rparr> = sample_env p c g"
  by (simp add: sample_env_def)



text \<open>Every page has its entry, and the fallback of a page.\<close>

lemma correct_text_three_empty:
  assumes "\<forall>i<3. \<exists>r. model (calls w + i) raw = Return r \<and> candidates r = []"
  shows "correct_text model raw 3 w =
           (Inr (Some raw), w\<lparr>calls := calls w + 3, sleeps := sleeps w @ [10, 20]\<rparr>)"
proof -
  obtain r0 where r0: "model (calls w) raw = Return r0" "candidates r0 = []"
    using assms[rule_format, of 0] by auto
  obtain r1 where r1: "model (Suc (calls w)) raw = Return r1" "candidates r1 = []"
    using assms[rule_format, of 1] by auto
  obtain r2 where r2: "model (Suc (Suc (calls w))) raw = Return r2" "candidates r2 = []"
    using assms[rule_format, of 2] by auto
  have "correct_retry model raw 3 0 w =
          (case Value raw of Value t \<Rightarrow> Inr (Some t) | Raised e \<Rightarrow> Inl e | _ \<Rightarrow> Inr None,
           w\<lparr>calls := calls w + 3, sleeps := sleeps w @ [10, 20]\<rparr>)"
    by (rule correct_retry_three[where t = raw])
       (simp_all add: r0 r1 r2 correct_attempt_empty)
  then show ?thesis by (simp add: correct_text_def)
qed

lemma pass2_fallback_step:
  assumes "two_pass mode"
    and "\<forall>i<3. \<exists>resp. corr_replies ev (calls (corr_world s) + i) raw = Return resp
                     \<and> candidates resp = []"
  shows "pass2 ev mode ((idx, lbl, raw) # rs) s =
           pass2 ev mode rs
             (s\<lparr>corr_world := (corr_world s)\<lparr>calls := calls (corr_world s) + 3,
                                               sleeps := sleeps (corr_world s) @ [10, 20]\<rparr>,
                raw_pages := raw_pages s @ [with_header lbl raw],
                corr_pages := corr_pages s @ [with_header lbl raw],
                doc := doc s @ [\<lparr>page_index = idx, label = lbl, raw_text = raw,
                                 corrected_text = Some raw\<rparr>]\<rparr>)"
  using assms correct_text_three_empty[where model = "corr_replies ev" and w = "corr_world s" and raw = raw]
  by (simp add: format_opt_def)

lemma run_batches_rendered:
  "run_batches ev start_page mode tp bs starts st = (None, st') \<Longrightarrow>
   \<forall>b \<in> set starts. \<exists>ps. render ev b (batch_end_of tp bs b) = Inr ps"
proof (induction starts arbitrary: st)
  case Nil
  then show ?case by simp
next
  case (Cons b starts)
  obtain x st1 where r: "run_batch ev start_page mode tp bs b st = (x, st1)"
    by (cases "run_batch ev start_page mode tp bs b st")
  then have x: "x = None" using Cons.prems by (cases x) auto
  have "\<exists>ps. render ev b (batch_end_of tp bs b) = Inr ps"
    using r x by (cases "render ev b (batch_end_of tp bs b)") (auto simp: run_batch_def)
  moreover have "run_batches ev start_page mode tp bs starts st1 = (None, st')"
    using Cons.prems r x by simp
  ultimately show ?case using Cons.IH by auto
qed

lemma map_add_upto: "map (\<lambda>i. b + int i) [0..<n] = [b..b + int n - 1]"
proof (induction n)
  case 0
  then show ?case by simp
next
  case (Suc n)
  have "[b..b + int (Suc n) - 1] = [b..b + int n - 1] @ [b + int n]"
    using upto_rec2[of b "b + int n"] by simp
  then show ?case using Suc by simp
qed

lemma batch_indices_exact:
  assumes "\<forall>a b ps. render ev a b = Inr ps \<longrightarrow> length ps = nat (b - a + 1)"
    and "render ev b (batch_end_of tp bs b) = Inr ps"
  shows "batch_indices ev tp bs b = [b..batch_end_of tp bs b]"
proof -
  have l: "length ps = nat (batch_end_of tp bs b - b + 1)" using assms by blast
  show ?thesis
  proof (cases "b \<le> batch_end_of tp bs b + 1")
    case True
    then show ?thesis by (simp add: batch_indices_def assms(2) map_add_upto l)
  next
    case False
    then show ?thesis by (simp add: batch_indices_def assms(2) l)
  qed
qed

lemma doc_indices_exact:
  assumes perm: "\<forall>fs. mset (as_completed ev fs) = mset fs"
    and exact: "\<forall>a b ps. render ev a b = Inr ps \<longrightarrow> length ps = nat (b - a + 1)"
    and bs: "1 \<le> bs"
    and run: "run_batches ev start_page mode tp bs (range_up 1 (tp + 1) bs) init_state = (None, st)"
  shows "map page_index (doc st) = [1..tp]"
proof -
  let ?starts = "range_up 1 (tp + 1) bs"
  have "map page_index (doc st) = concat (map (batch_indices ev tp bs) ?starts)"
    using run_batches_order[OF perm run] by (simp add: init_state_def)
  also have "map (batch_indices ev tp bs) ?starts = map (\<lambda>b. [b..batch_end_of tp bs b]) ?starts"
  proof (rule map_cong[OF refl])
    fix b assume "b \<in> set ?starts"
    then obtain ps where "render ev b (batch_end_of tp bs b) = Inr ps"
      using run_batches_rendered[OF run] by blast
    then show "batch_indices ev tp bs b = [b..batch_end_of tp bs b]"
      using exact by (rule batch_indices_exact[rotated])
  qed
  also have "concat (map (\<lambda>b. [b..batch_end_of tp bs b]) ?starts)
               = concat (map (\<lambda>(s, e). [s..e]) (windows_from tp bs 1))"
    by (simp add: windows_from_def comp_def)
  also have "\<dots> = [1..tp]"
  proof (cases "0 \<le> tp")
    case True
    then show ?thesis using wf_cover[OF bs, of 1 tp] by simp
  next
    case False
    then have "windows_from tp bs 1 = []" by (subst windows_from_unfold) simp
    then show ?thesis using False by simp
  qed
  finally show ?thesis .
qed

lemma corrected_or_raw_fallback:
  assumes "corrected_or_raw ev st" and "p \<in> set (doc st)" and "corrected_text p \<noteq> None"
    and "\<forall>n resp. corr_replies ev n (raw_text p) = Return resp \<longrightarrow> candidates resp = []"
  shows "corrected_text p = Some (raw_text p)"
proof -
  obtain c where c: "corrected_text p = Some c" using assms(3) by auto
  then have "c = raw_text p
      \<or> (\<exists>n r u. corr_replies ev n (raw_text p) = Return r \<and> candidates r \<noteq> []
            \<and> text_attr r = Inr u \<and> c = strip u)"
    using assms(1,2) unfolding corrected_or_raw_def by blast
  then have "c = raw_text p" using assms(4) by blast
  then show ?thesis using c by simp
qed

text \<open>
  Claim C5. Let the pool hand back every future of a batch, the renderer return the
  pages of the window asked for, and \<open>batch_size \<ge> 1\<close>. After a run that returns, the
  document has exactly one entry for every page \<open>1, ..., total_pages\<close>, in this order. Every
  entry has a raw block; it has a corrected text and a corrected block exactly in
  two-pass mode, and the result returned holds the corrected document exactly in two-pass
  mode. A corrected text is the raw text of its page or the stripped text of a reply of
  the correction model to that raw text; it is the raw text when the model has no reply
  with candidates for it. And at the step of the second pass for a page: when the three
  invocations of its correction call return no candidates, the page is appended with its
  raw text as corrected text, and its corrected block holds the raw text.
\<close>

theorem corrected_text_presence:
  assumes "\<forall>fs. mset (as_completed ev fs) = mset fs"
    and "\<forall>a b ps. render ev a b = Inr ps \<longrightarrow> length ps = nat (b - a + 1)"
    and "1 \<le> batch_size"
    and "pdfinfo ev = Inr (Some total_pages)"
    and "run_pipeline ev start_page mode batch_size init_state = (Inr r, st)"
  shows "map page_index (doc st) = [1..total_pages]
       \<and> blocks_agree mode st
       \<and> (r = Ret_None \<and> total_pages = 0
          \<or> r = (if two_pass mode
                 then Ret_Both (join [10, 10] (raw_pages st)) (join [10, 10] (corr_pages st))
                 else Ret_Raw (join [10, 10] (raw_pages st))))
       \<and> corrected_or_raw ev st
       \<and> (\<forall>p \<in> set (doc st).
            two_pass mode
            \<and> (\<forall>n resp. corr_replies ev n (raw_text p) = Return resp \<longrightarrow> candidates resp = [])
            \<longrightarrow> corrected_text p = Some (raw_text p))
       \<and> (\<forall>idx lbl raw rs s.
            two_pass mode
            \<and> (\<forall>i<3. \<exists>resp. corr_replies ev (calls (corr_world s) + i) raw = Return resp
                          \<and> candidates resp = [])
            \<longrightarrow> pass2 ev mode ((idx, lbl, raw) # rs) s =
                  pass2 ev mode rs
                    (s\<lparr>corr_world := (corr_world s)\<lparr>calls := calls (corr_world s) + 3,
                                      sleeps := sleeps (corr_world s) @ [10, 20]\<rparr>,
                       raw_pages := raw_pages s @ [with_header lbl raw],
                       corr_pages := corr_pages s @ [with_header lbl raw],
                       doc := doc s @ [\<lparr>page_index = idx, label = lbl, raw_text = raw,
                                        corrected_text = Some raw\<rparr>]\<rparr>))"
proof -
  have step: "\<forall>idx lbl raw rs s.
            two_pass mode
            \<and> (\<forall>i<3. \<exists>resp. corr_replies ev (calls (corr_world s) + i) raw = Return resp
                          \<and> candidates resp = [])
            \<longrightarrow> pass2 ev mode ((idx, lbl, raw) # rs) s =
                  pass2 ev mode rs
                    (s\<lparr>corr_world := (corr_world s)\<lparr>calls := calls (corr_world s) + 3,
                                      sleeps := sleeps (corr_world s) @ [10, 20]\<rparr>,
                       raw_pages := raw_pages s @ [with_header lbl raw],
                       corr_pages := corr_pages s @ [with_header lbl raw],
                       doc := doc s @ [\<lparr>page_index = idx, label = lbl, raw_text = raw,
                                        corrected_text = Some raw\<rparr>]\<rparr>)"
    using pass2_fallback_step by blast
  from run_pipeline_cases[OF assms(5)] assms(4)
  consider (none) "r = Ret_None" "st = init_state" "total_pages = 0"
    | (run) starts st1 where "total_pages \<noteq> 0"
        "py_range 1 (total_pages + 1) batch_size = Inr starts"
        "run_batches ev start_page mode total_pages batch_size starts init_state = (None, st1)"
        "finalize ev mode st1 = (r, st)"
    by auto
  then show ?thesis
  proof cases
    case none
    have "blocks_agree mode st" "corrected_or_raw ev st" "doc st = []"
      unfolding none(2) using invariants_init(1)[of mode] invariants_init(2)[of ev]
      by (simp_all add: init_state_def)
    then show ?thesis using none step by simp
  next
    case run
    have s: "starts = range_up 1 (total_pages + 1) batch_size"
      using run(2) assms(3) by (simp add: py_range_def)
    have f: "doc st = doc st1" using finalize_doc[OF run(4)] by simp
    have i: "map page_index (doc st) = [1..total_pages]"
      unfolding f using doc_indices_exact[OF assms(1,2,3)] run(3) unfolding s by blast
    have b: "blocks_agree mode st1"
      by (rule run_batches_preserves[where I = "blocks_agree mode", OF _ _ run(3)])
         (auto intro: pass2_blocks invariants_init)
    have c: "corrected_or_raw ev st1"
      by (rule run_batches_preserves[where I = "corrected_or_raw ev", OF _ _ run(3)])
         (auto intro: pass2_corrected_or_raw invariants_init)
    have b': "blocks_agree mode st" and c': "corrected_or_raw ev st"
      using b c finalize_invariants[OF run(4)] by simp_all
    have r: "r = (if two_pass mode
                 then Ret_Both (join [10, 10] (raw_pages st)) (join [10, 10] (corr_pages st))
                 else Ret_Raw (join [10, 10] (raw_pages st)))"
      using finalize_doc[OF run(4)] by simp
    have p: "\<forall>p \<in> set (doc st).
            two_pass mode
            \<and> (\<forall>n resp. corr_replies ev n (raw_text p) = Return resp \<longrightarrow> candidates resp = [])
            \<longrightarrow> corrected_text p = Some (raw_text p)"
    proof (intro ballI impI)
      fix p assume p: "p \<in> set (doc st)"
        and h: "two_pass mode
            \<and> (\<forall>n resp. corr_replies ev n (raw_text p) = Return resp \<longrightarrow> candidates resp = [])"
      have "corrected_text p \<noteq> None" using b' p h unfolding blocks_agree_def by blast
      then show "corrected_text p = Some (raw_text p)"
        using corrected_or_raw_fallback[OF c' p] h by blast
    qed
    show ?thesis using i b' c' r p step by blast
  qed
qed

lemma uniform_pdf_exact:
  "uniform_pdf w h a b = Inr ps \<Longrightarrow> length ps = nat (b - a + 1)"
  by (auto simp: uniform_pdf_def)

theorem corrected_text_presence_witness:
  "always_empty (constant_model (Return empty_response) :: pystr model)
   \<and> two_pass (lit ''two-pass'')
   \<and> map page_index (doc (snd (run_pipeline
         (sample_env (Some 2) (constant_model (Return empty_response)) rev) 1
         (lit ''two-pass'') 5 init_state))) = [1, 2]
   \<and> map corrected_text (doc (snd (run_pipeline
         (sample_env (Some 2) (constant_model (Return empty_response)) rev) 1
         (lit ''two-pass'') 5 init_state))) = [Some (lit ''text 1''), Some (lit ''text 2'')]
   \<and> map raw_text (doc (snd (run_pipeline
         (sample_env (Some 2) (constant_model (Return empty_response)) rev) 1
         (lit ''two-pass'') 5 init_state))) = [lit ''text 1'', lit ''text 2'']
   \<and> blocks_agree (lit ''two-pass'') (snd (run_pipeline
         (sample_env (Some 2) (constant_model (Return empty_response)) rev) 1
         (lit ''two-pass'') 5 init_state))"
proof -
  let ?ev = "sample_env (Some 2) (constant_model (Return empty_response)) rev"
  have a: "always_empty (constant_model (Return empty_response) :: pystr model)"
    by (simp add: always_empty_def constant_model_def empty_response_def)
  have p: "\<forall>fs. mset (as_completed ?ev fs) = mset fs"
    by (simp add: sample_fields)
  have e: "\<forall>a b ps. render ?ev a b = Inr ps \<longrightarrow> length ps = nat (b - a + 1)"
    using uniform_pdf_exact by (simp add: sample_fields)
  have i: "pdfinfo ?ev = Inr (Some 2)" by (simp add: sample_fields)
  show ?thesis
    using corrected_text_presence[OF p e _ i sample_run_2] a two_pass_lit(1)
    by (simp add: sample_run_2 upto.simps)
qed

end
